theory Spec2Isabelle
  imports Main
begin

section \<open>Python strings\<close>

text \<open>
  A Python \<^verbatim>\<open>str\<close> is a sequence of Unicode code points. A code point is modelled as a
  natural number and a string as a list of them; \<open>py ''abc''\<close> is the string literal
  \<^verbatim>\<open>"abc"\<close>.
\<close>

type_synonym codepoint = nat
type_synonym str = "codepoint list"

abbreviation (input) py :: "string \<Rightarrow> str" where
  "py lit \<equiv> map of_char lit"

text \<open>
  The characters that \<^verbatim>\<open>str.split()\<close>, \<^verbatim>\<open>str.strip()\<close> and
  \<^verbatim>\<open>str.isspace()\<close> treat as whitespace: TAB, LF, VT, FF, CR, the separators
  U+001C to U+001F, SPACE, NEL, NBSP and the Unicode space separators.
\<close>

definition isspace :: "codepoint \<Rightarrow> bool" where
  "isspace c \<longleftrightarrow>
     (0x09 \<le> c \<and> c \<le> 0x0D) \<or> (0x1C \<le> c \<and> c \<le> 0x20) \<or> c = 0x85 \<or> c = 0xA0 \<or>
     c = 0x1680 \<or> (0x2000 \<le> c \<and> c \<le> 0x200A) \<or> c = 0x2028 \<or> c = 0x2029 \<or>
     c = 0x202F \<or> c = 0x205F \<or> c = 0x3000"

definition str_lstrip :: "str \<Rightarrow> str" where
  "str_lstrip s = dropWhile isspace s"

definition str_rstrip :: "str \<Rightarrow> str" where
  "str_rstrip s = rev (dropWhile isspace (rev s))"

text \<open>\<^verbatim>\<open>s.strip()\<close>\<close>

definition str_strip :: "str \<Rightarrow> str" where
  "str_strip s = str_rstrip (str_lstrip s)"

text \<open>
  \<^verbatim>\<open>s.split()\<close> without a separator: skip whitespace, take the maximal run of
  other characters as the next item, repeat; no empty item is ever produced.
\<close>

function str_split :: "str \<Rightarrow> str list" where
  "str_split s =
     (let rest = dropWhile isspace s in
      if rest = [] then []
      else takeWhile (\<lambda>c. \<not> isspace c) rest # str_split (dropWhile (\<lambda>c. \<not> isspace c) rest))"
  by pat_completeness auto
termination
proof (relation "measure length")
  show "wf (measure length)" by simp
next
  fix s rest :: str
  assume r: "rest = dropWhile isspace s" and ne: "rest \<noteq> []"
  from ne obtain c cs where rc: "rest = c # cs" by (cases rest) auto
  from r ne have "\<not> isspace (hd rest)" using hd_dropWhile by metis
  with rc have "dropWhile (\<lambda>c. \<not> isspace c) rest = dropWhile (\<lambda>c. \<not> isspace c) cs" by simp
  moreover have "length (dropWhile (\<lambda>c. \<not> isspace c) cs) \<le> length cs"
    by (rule length_dropWhile_le)
  moreover have "length rest \<le> length s" unfolding r by (rule length_dropWhile_le)
  ultimately have "length (dropWhile (\<lambda>c. \<not> isspace c) rest) < length s" using rc by simp
  then show "(dropWhile (\<lambda>c. \<not> isspace c) rest, s) \<in> measure length" by simp
qed

declare str_split.simps [simp del]

text \<open>\<^verbatim>\<open>sep.join(items)\<close>\<close>

fun str_join :: "str \<Rightarrow> str list \<Rightarrow> str" where
  "str_join sep [] = []"
| "str_join sep [x] = x"
| "str_join sep (x # y # ys) = x @ sep @ str_join sep (y # ys)"

text \<open>\<^verbatim>\<open>s.replace(old, new)\<close> where \<open>old\<close> and \<open>new\<close> are single characters.\<close>

definition str_replace :: "codepoint \<Rightarrow> codepoint \<Rightarrow> str \<Rightarrow> str" where
  "str_replace old new s = map (\<lambda>c. if c = old then new else c) s"

section \<open>The regular expression of \<^verbatim>\<open>extract_year_from_date\<close>\<close>

text \<open>
  For a \<^verbatim>\<open>str\<close> pattern, \<^verbatim>\<open>\d\<close> is any Unicode decimal digit and \<^verbatim>\<open>\w\<close> any
  Unicode alphanumeric character or the underscore. Below U+0080 both classes are
  written out; above, they are the tables of the Unicode character database of the
  running interpreter, which the model takes as a parameter.
\<close>

record ucd =
  uni_decimal :: "codepoint \<Rightarrow> bool"
  uni_alnum :: "codepoint \<Rightarrow> bool"

definition re_digit :: "ucd \<Rightarrow> codepoint \<Rightarrow> bool" where
  "re_digit U c = (if c < 0x80 then 0x30 \<le> c \<and> c \<le> 0x39 else uni_decimal U c)"

definition re_word :: "ucd \<Rightarrow> codepoint \<Rightarrow> bool" where
  "re_word U c =
     (if c < 0x80
      then (0x30 \<le> c \<and> c \<le> 0x39) \<or> (0x41 \<le> c \<and> c \<le> 0x5A) \<or> c = 0x5F \<or> (0x61 \<le> c \<and> c \<le> 0x7A)
      else uni_alnum U c)"

text \<open>
  \<^verbatim>\<open>\b\<close> at index \<open>i\<close>: exactly one of the characters before and after the position
  is a word character (a missing character counts as a non-word character).
\<close>

definition at_boundary :: "ucd \<Rightarrow> str \<Rightarrow> nat \<Rightarrow> bool" where
  "at_boundary U s i =
     (let that = (0 < i \<and> i \<le> length s \<and> re_word U (s ! (i - 1)));
          this = (i < length s \<and> re_word U (s ! i))
      in this \<noteq> that)"

datatype regex = Boundary | Lit codepoint | Digit | Alt regex regex | Seq regex regex

text \<open>
  Backtracking matcher: all the end positions of a match of the pattern that starts at
  index \<open>i\<close>, in the order in which the engine tries them.
\<close>

fun re_match :: "ucd \<Rightarrow> str \<Rightarrow> regex \<Rightarrow> nat \<Rightarrow> nat list" where
  "re_match U s Boundary i = (if at_boundary U s i then [i] else [])"
| "re_match U s (Lit c) i = (if i < length s \<and> s ! i = c then [Suc i] else [])"
| "re_match U s Digit i = (if i < length s \<and> re_digit U (s ! i) then [Suc i] else [])"
| "re_match U s (Alt a b) i = re_match U s a i @ re_match U s b i"
| "re_match U s (Seq a b) i = concat (map (re_match U s b) (re_match U s a i))"

text \<open>
  \<^verbatim>\<open>re.search(pattern, s)\<close>: the leftmost start index with a match and the first end
  position found there, or \<open>None\<close>.
\<close>

fun re_search_from :: "ucd \<Rightarrow> regex \<Rightarrow> str \<Rightarrow> nat list \<Rightarrow> (nat \<times> nat) option" where
  "re_search_from U p s [] = None"
| "re_search_from U p s (i # is) =
     (case re_match U s p i of
        [] \<Rightarrow> re_search_from U p s is
      | e # _ \<Rightarrow> Some (i, e))"

definition re_search :: "ucd \<Rightarrow> regex \<Rightarrow> str \<Rightarrow> (nat \<times> nat) option" where
  "re_search U p s = re_search_from U p s [0 ..< Suc (length s)]"

text \<open>\<^verbatim>\<open>match.group()\<close>: the matched substring.\<close>

definition group :: "str \<Rightarrow> nat \<times> nat \<Rightarrow> str" where
  "group s m = take (snd m - fst m) (drop (fst m) s)"

text \<open>The pattern \<^verbatim>\<open>\b(19|20)\d{2}\b\<close>.\<close>

definition year_pattern :: regex where
  "year_pattern =
     Seq Boundary
       (Seq (Alt (Seq (Lit 0x31) (Lit 0x39)) (Seq (Lit 0x32) (Lit 0x30)))
         (Seq Digit (Seq Digit Boundary)))"

section \<open>The functions of \<^verbatim>\<open>zotero_parser.py\<close>\<close>

definition extract_last_name :: "str \<Rightarrow> str" where
  "extract_last_name full_name =
     (let parts = str_split (str_strip full_name)
      in if parts \<noteq> [] then last parts else full_name)"

definition format_authors :: "str list \<Rightarrow> str" where
  "format_authors author_list =
     (if author_list = [] then []
      else
        let last_names = map extract_last_name (filter (\<lambda>author. str_strip author \<noteq> []) author_list)
        in if length last_names = 1 then last_names ! 0
           else if length last_names = 2 then (last_names ! 0) @ py '' and '' @ (last_names ! 1)
           else if length last_names > 2 then (last_names ! 0) @ py '' et al''
           else [])"

definition extract_year_from_date :: "ucd \<Rightarrow> str \<Rightarrow> str" where
  "extract_year_from_date U date_text =
     (if date_text = [] then []
      else case re_search U year_pattern date_text of
             Some year_match \<Rightarrow> group date_text year_match
           | None \<Rightarrow> [])"

definition clean_text :: "str \<Rightarrow> str" where
  "clean_text text =
     (if text = [] then []
      else let cleaned = str_replace 0x0D 0x20 (str_replace 0x0A 0x20 text)
           in str_join (py '' '') (str_split cleaned))"

subsection \<open>The entry node as \<^verbatim>\<open>parse_article\<close> reads it\<close>

text \<open>
  \<^verbatim>\<open>parse_article\<close> reads an entry only through \<^verbatim>\<open>find\<close>, \<^verbatim>\<open>find_all\<close>,
  \<^verbatim>\<open>find_next_sibling\<close> and \<^verbatim>\<open>get_text(strip=True)\<close>. An element is represented by
  the text nodes below it in document order; \<^verbatim>\<open>get_text(strip=True)\<close> strips each of
  them, drops those that become empty and concatenates the others. A lookup that finds
  no element is \<open>None\<close>.
\<close>

type_synonym element = "str list"

definition get_text_strip :: "element \<Rightarrow> str" where
  "get_text_strip el = concat (filter (\<lambda>t. t \<noteq> []) (map str_strip el))"

record row =
  row_th :: "element option"
  row_td :: "element option"

record table =
  author_tds :: "element option list"
  table_rows :: "row list"

record entry =
  entry_h2 :: "element option"
  entry_table :: "table option"

text \<open>
  \<open>row_th\<close> and \<open>row_td\<close> are \<^verbatim>\<open>row.find('th')\<close> and \<^verbatim>\<open>row.find('td')\<close>;
  \<open>table_rows\<close> is \<^verbatim>\<open>table.find_all('tr')\<close>; \<open>author_tds\<close> holds, for each element of
  \<^verbatim>\<open>table.find_all('th', class_='author')\<close>, its \<^verbatim>\<open>find_next_sibling('td')\<close>;
  \<open>entry_h2\<close> and \<open>entry_table\<close> are \<^verbatim>\<open>article_li.find('h2')\<close> and
  \<^verbatim>\<open>article_li.find('table')\<close>.
\<close>

subsection \<open>Dictionaries and exceptions\<close>

text \<open>
  \<^verbatim>\<open>article_data\<close> is a dictionary from strings to strings. \<open>exn\<close> stands for the
  exceptions that \<^verbatim>\<open>except Exception\<close> catches: the \<^verbatim>\<open>KeyError\<close> of a subscript with
  a missing key, and any other one with its message.
\<close>

type_synonym pydict = "str \<rightharpoonup> str"

datatype exn = KeyError str | Exception str

definition getitem :: "pydict \<Rightarrow> str \<Rightarrow> exn + str" where
  "getitem d k = (case d k of None \<Rightarrow> Inl (KeyError k) | Some v \<Rightarrow> Inr v)"

subsection \<open>\<^verbatim>\<open>parse_article\<close>\<close>

text \<open>The loop over \<^verbatim>\<open>author_elements\<close>.\<close>

fun collect_authors :: "element option list \<Rightarrow> str list \<Rightarrow> str list" where
  "collect_authors [] authors = authors"
| "collect_authors (None # tds) authors = collect_authors tds authors"
| "collect_authors (Some author_td # tds) authors =
     (let author_name = clean_text (get_text_strip author_td)
      in if author_name \<noteq> [] then collect_authors tds (authors @ [author_name])
         else collect_authors tds authors)"

text \<open>The body of the loop over \<^verbatim>\<open>rows\<close>, and the loop.\<close>

definition scan_row :: "ucd \<Rightarrow> row \<Rightarrow> pydict \<Rightarrow> exn + pydict" where
  "scan_row U r article_data =
     (case (row_th r, row_td r) of
        (Some th, Some td) \<Rightarrow>
          let field_name = get_text_strip th;
              field_value = clean_text (get_text_strip td)
          in if field_name = py ''Date''
             then Inr (article_data(py ''year'' \<mapsto> extract_year_from_date U field_value))
             else if field_name \<in> set [py ''Publication'', py ''Proceedings Title'', py ''Publisher'']
             then (case getitem article_data (py ''journal'') of
                     Inl e \<Rightarrow> Inl e
                   | Inr journal \<Rightarrow>
                       if journal = [] then Inr (article_data(py ''journal'' \<mapsto> field_value))
                       else Inr article_data)
             else if field_name = py ''Abstract''
             then Inr (article_data(py ''abstract'' \<mapsto> field_value))
             else Inr article_data
      | _ \<Rightarrow> Inr article_data)"

fun scan_rows :: "ucd \<Rightarrow> row list \<Rightarrow> pydict \<Rightarrow> exn + pydict" where
  "scan_rows U [] article_data = Inr article_data"
| "scan_rows U (r # rows) article_data =
     (case scan_row U r article_data of
        Inl e \<Rightarrow> Inl e
      | Inr article_data' \<Rightarrow> scan_rows U rows article_data')"

definition parse_article :: "ucd \<Rightarrow> entry \<Rightarrow> exn + pydict" where
  "parse_article U article_li =
     (let article_data =
            [py ''title'' \<mapsto> [], py ''author(s)'' \<mapsto> [], py ''year'' \<mapsto> [],
             py ''journal'' \<mapsto> [], py ''abstract'' \<mapsto> []];
          article_data =
            (case entry_h2 article_li of
               Some title_element \<Rightarrow>
                 article_data(py ''title'' \<mapsto> clean_text (get_text_strip title_element))
             | None \<Rightarrow> article_data)
      in case entry_table article_li of
           None \<Rightarrow> Inr article_data
         | Some tbl \<Rightarrow>
             let authors = collect_authors (author_tds tbl) [];
                 article_data = article_data(py ''author(s)'' \<mapsto> format_authors authors)
             in scan_rows U (table_rows tbl) article_data)"

subsection \<open>\<^verbatim>\<open>parse_zotero_html_report\<close>\<close>

text \<open>
  The lines printed by the loop: \<^verbatim>\<open>Parsed: <first 60 characters of the title>...\<close>,
  \<^verbatim>\<open>Skipped article <n>: No title found\<close> and \<^verbatim>\<open>Error parsing article <n>: <e>\<close>.
\<close>

datatype message = Parsed str | Skipped nat | Error_parsing nat exn

record run =
  parsed_articles :: "pydict list"
  printed :: "message list"

text \<open>
  The body of the \<^verbatim>\<open>try\<close> statement for the entry with index \<open>i\<close>, and its
  \<^verbatim>\<open>except Exception\<close> handler. The extraction function is a parameter, so that an
  extraction that raises can be put in the place of \<^verbatim>\<open>parse_article\<close>.
\<close>

definition try_article :: "(entry \<Rightarrow> exn + pydict) \<Rightarrow> nat \<Rightarrow> entry \<Rightarrow> run \<Rightarrow> exn + run" where
  "try_article extract i article_li st =
     (case extract article_li of
        Inl e \<Rightarrow> Inl e
      | Inr article_data \<Rightarrow>
          (case getitem article_data (py ''title'') of
             Inl e \<Rightarrow> Inl e
           | Inr title \<Rightarrow>
               if title \<noteq> []
               then Inr (st\<lparr>parsed_articles := parsed_articles st @ [article_data],
                           printed := printed st @ [Parsed (take 60 title)]\<rparr>)
               else Inr (st\<lparr>printed := printed st @ [Skipped (i + 1)]\<rparr>)))"

fun parse_loop :: "(entry \<Rightarrow> exn + pydict) \<Rightarrow> nat \<Rightarrow> entry list \<Rightarrow> run \<Rightarrow> run" where
  "parse_loop extract i [] st = st"
| "parse_loop extract i (article_li # article_items) st =
     parse_loop extract (Suc i) article_items
       (case try_article extract i article_li st of
          Inr st' \<Rightarrow> st'
        | Inl e \<Rightarrow> st\<lparr>printed := printed st @ [Error_parsing (i + 1) e]\<rparr>)"

text \<open>
  The function from the list \<^verbatim>\<open>article_items\<close> on (the entries that
  \<^verbatim>\<open>soup.find_all('li', class_='item')\<close> returns, in document order).
\<close>

definition parse_report_with :: "(entry \<Rightarrow> exn + pydict) \<Rightarrow> entry list \<Rightarrow> run" where
  "parse_report_with extract article_items =
     parse_loop extract 0 article_items \<lparr>parsed_articles = [], printed = []\<rparr>"

definition parse_zotero_html_report :: "ucd \<Rightarrow> entry list \<Rightarrow> run" where
  "parse_zotero_html_report U article_items = parse_report_with (parse_article U) article_items"


section \<open>Notions of the specification\<close>

text \<open>
  Text cleaning as the specification words it: every run of whitespace becomes a single
  space (\<open>collapse\<close>), after CR and LF have been replaced by spaces, and the result is
  trimmed.
\<close>

fun collapse :: "str \<Rightarrow> str" where
  "collapse [] = []"
| "collapse [c] = [if isspace c then 0x20 else c]"
| "collapse (c # d # cs) =
     (if isspace c \<and> isspace d then collapse (d # cs)
      else (if isspace c then 0x20 else c) # collapse (d # cs))"

definition spec_clean :: "str \<Rightarrow> str" where
  "spec_clean x = str_strip (collapse (map (\<lambda>c. if c = 0x0D \<or> c = 0x0A then 0x20 else c) x))"

text \<open>A token: a non-empty string without whitespace.\<close>

definition token :: "str \<Rightarrow> bool" where
  "token t \<longleftrightarrow> t \<noteq> [] \<and> (\<forall>c\<in>set t. \<not> isspace c)"

text \<open>
  Author formatting as the specification words it: a blank name consists of whitespace
  only; the surname of a name is its last whitespace-delimited token (the longest
  whitespace-free block that ends the name once trailing whitespace is dropped), or the
  name itself when it has no token.
\<close>

definition blank :: "str \<Rightarrow> bool" where
  "blank s \<longleftrightarrow> (\<forall>c\<in>set s. isspace c)"

definition last_token :: "str \<Rightarrow> str" where
  "last_token s = rev (takeWhile (\<lambda>c. \<not> isspace c) (dropWhile isspace (rev s)))"

definition surname :: "str \<Rightarrow> str" where
  "surname s = (if blank s then s else last_token s)"

definition spec_format :: "str list \<Rightarrow> str" where
  "spec_format names =
     (case map surname (filter (\<lambda>n. \<not> blank n) names) of
        [] \<Rightarrow> []
      | [a] \<Rightarrow> a
      | [a, b] \<Rightarrow> a @ py '' and '' @ b
      | a # _ \<Rightarrow> a @ py '' et al'')"

text \<open>
  At index \<open>i\<close> of \<open>s\<close> starts a four-digit number that begins with 19 or 20 and is
  bounded by word boundaries.
\<close>

definition year_at :: "ucd \<Rightarrow> str \<Rightarrow> nat \<Rightarrow> bool" where
  "year_at U s i \<longleftrightarrow>
     i + 4 \<le> length s \<and>
     (s ! i = 0x31 \<and> s ! (i + 1) = 0x39 \<or> s ! i = 0x32 \<and> s ! (i + 1) = 0x30) \<and>
     re_digit U (s ! (i + 2)) \<and> re_digit U (s ! (i + 3)) \<and>
     at_boundary U s i \<and> at_boundary U s (i + 4)"

text \<open>
  The field table of an entry: the (label, cleaned value) pairs of the rows that have both
  a label cell and a value cell, in row-scan order; an entry without a table has none.
\<close>

definition row_field :: "row \<Rightarrow> (str \<times> str) option" where
  "row_field r =
     (case (row_th r, row_td r) of
        (Some th, Some td) \<Rightarrow> Some (get_text_strip th, clean_text (get_text_strip td))
      | _ \<Rightarrow> None)"

definition field_table :: "row list \<Rightarrow> (str \<times> str) list" where
  "field_table rows = List.map_filter row_field rows"

definition entry_fields :: "entry \<Rightarrow> (str \<times> str) list" where
  "entry_fields e = (case entry_table e of None \<Rightarrow> [] | Some tbl \<Rightarrow> field_table (table_rows tbl))"

text \<open>
  Journal: the value of the first field with a venue label and a non-empty value.
  Abstract: the value of the last Abstract field. Year: the year extracted from the value
  of the last Date field. Each is the empty string when there is no such field.
\<close>

definition venue_field :: "str \<times> str \<Rightarrow> bool" where
  "venue_field f \<longleftrightarrow>
     fst f \<in> {py ''Publication'', py ''Proceedings Title'', py ''Publisher''} \<and> snd f \<noteq> []"

definition spec_journal :: "(str \<times> str) list \<Rightarrow> str" where
  "spec_journal fs = (case find venue_field fs of None \<Rightarrow> [] | Some f \<Rightarrow> snd f)"

definition spec_abstract :: "(str \<times> str) list \<Rightarrow> str" where
  "spec_abstract fs =
     (case filter (\<lambda>f. fst f = py ''Abstract'') fs of [] \<Rightarrow> [] | f # fs' \<Rightarrow> snd (last (f # fs')))"

definition spec_year :: "ucd \<Rightarrow> (str \<times> str) list \<Rightarrow> str" where
  "spec_year U fs =
     (case filter (\<lambda>f. fst f = py ''Date'') fs of
        [] \<Rightarrow> []
      | f # fs' \<Rightarrow> extract_year_from_date U (snd (last (f # fs'))))"

text \<open>The title of an entry: the cleaned text of its heading, empty without a heading.\<close>

definition extracted_title :: "entry \<Rightarrow> str" where
  "extracted_title e =
     (case entry_h2 e of None \<Rightarrow> [] | Some h \<Rightarrow> clean_text (get_text_strip h))"

text \<open>
  A tidy string has no CR or LF, no two consecutive whitespace characters and no leading
  or trailing whitespace.
\<close>

fun double_space :: "str \<Rightarrow> bool" where
  "double_space [] \<longleftrightarrow> False"
| "double_space [a] \<longleftrightarrow> False"
| "double_space (a # b # cs) \<longleftrightarrow> isspace a \<and> isspace b \<or> double_space (b # cs)"

definition tidy :: "str \<Rightarrow> bool" where
  "tidy s \<longleftrightarrow>
     0x0D \<notin> set s \<and> 0x0A \<notin> set s \<and> \<not> double_space s \<and>
     (s \<noteq> [] \<longrightarrow> \<not> isspace (hd s) \<and> \<not> isspace (last s))"

text \<open>
  A record has a title when its \<^verbatim>\<open>title\<close> is a non-empty string; \<open>kept\<close> is what one
  entry contributes to the output: its record when the extraction returns one with a
  title, nothing otherwise.
\<close>

definition has_title :: "pydict \<Rightarrow> bool" where
  "has_title d \<longleftrightarrow> (case d (py ''title'') of None \<Rightarrow> False | Some t \<Rightarrow> t \<noteq> [])"

definition kept :: "(entry \<Rightarrow> exn + pydict) \<Rightarrow> entry \<Rightarrow> pydict list" where
  "kept extract a = (case extract a of Inl e \<Rightarrow> [] | Inr d \<Rightarrow> if has_title d then [d] else [])"

section \<open>Whitespace splitting\<close>

lemma str_split_Nil [simp]: "str_split [] = []"
  by (simp add: str_split.simps)

lemma str_split_space: "isspace c \<Longrightarrow> str_split (c # cs) = str_split cs"
  by (subst str_split.simps, subst (2) str_split.simps) simp

lemma str_split_word:
  "\<not> isspace c \<Longrightarrow>
   str_split (c # cs) = (c # takeWhile (\<lambda>c. \<not> isspace c) cs) # str_split (dropWhile (\<lambda>c. \<not> isspace c) cs)"
  by (subst str_split.simps) simp

lemma isspace_32 [simp]: "isspace 32"
  by (simp add: isspace_def)

lemma str_split_dropWhile: "str_split (dropWhile isspace s) = str_split s"
  by (induction s) (simp_all add: str_split_space)

lemma str_split_eq_Nil_iff: "str_split s = [] \<longleftrightarrow> (\<forall>c\<in>set s. isspace c)"
proof (induction s)
  case Nil
  show ?case by simp
next
  case (Cons c cs)
  show ?case
  proof (cases "isspace c")
    case True
    with Cons show ?thesis by (simp add: str_split_space)
  next
    case False
    then show ?thesis by (auto simp: str_split_word)
  qed
qed


lemma str_split_token_append:
  assumes "token t" and "r = [] \<or> isspace (hd r)"
  shows "str_split (t @ r) = t # str_split r"
proof -
  from assms(1) obtain c t' where t: "t = c # t'" and c: "\<not> isspace c"
    and t': "\<forall>x\<in>set t'. \<not> isspace x"
    by (cases t) (auto simp: token_def)
  from assms(2) have tw: "takeWhile (\<lambda>c. \<not> isspace c) r = []"
    and dw: "dropWhile (\<lambda>c. \<not> isspace c) r = r"
    by (cases r; simp)+
  from t' have "takeWhile (\<lambda>c. \<not> isspace c) (t' @ r) = t'"
    and "dropWhile (\<lambda>c. \<not> isspace c) (t' @ r) = r"
    using tw dw by simp_all
  with c t show ?thesis by (simp add: str_split_word)
qed

lemma str_split_tokens: "t \<in> set (str_split s) \<Longrightarrow> token t"
proof (induction s arbitrary: t rule: length_induct)
  case (1 s)
  show ?case
  proof (cases s)
    case Nil
    with 1 show ?thesis by simp
  next
    case (Cons c cs)
    show ?thesis
    proof (cases "isspace c")
      case True
      with 1(2) Cons have "t \<in> set (str_split cs)" by (simp add: str_split_space)
      with 1(1) Cons show ?thesis by auto
    next
      case False
      have len: "length (dropWhile (\<lambda>c. \<not> isspace c) cs) < length s"
        using Cons length_dropWhile_le [of "\<lambda>c. \<not> isspace c" cs] by simp
      from 1(2) Cons False
      have "t = c # takeWhile (\<lambda>c. \<not> isspace c) cs \<or> t \<in> set (str_split (dropWhile (\<lambda>c. \<not> isspace c) cs))"
        by (simp add: str_split_word)
      then show ?thesis
      proof
        assume "t = c # takeWhile (\<lambda>c. \<not> isspace c) cs"
        with False show ?thesis by (auto simp: token_def dest: set_takeWhileD)
      next
        assume "t \<in> set (str_split (dropWhile (\<lambda>c. \<not> isspace c) cs))"
        with 1(1) len show ?thesis by blast
      qed
    qed
  qed
qed

lemma str_split_join:
  "(\<forall>t\<in>set ts. token t) \<Longrightarrow> str_split (str_join [32] ts) = ts"
proof (induction "[32::nat]" ts rule: str_join.induct)
  case 1
  show ?case by simp
next
  case (2 x)
  then have "token x" by simp
  from str_split_token_append [OF this, of "[]"] show ?case by simp
next
  case (3 x y ys)
  then have x: "token x" and ih: "str_split (str_join [32] (y # ys)) = y # ys" by simp_all
  have "str_split (x @ (32 # str_join [32] (y # ys))) = x # str_split (32 # str_join [32] (y # ys))"
    by (rule str_split_token_append [OF x]) simp
  then show ?case using ih by (simp add: str_split_space)
qed


lemma collapse_space: "isspace w \<Longrightarrow> collapse (w # s) = 32 # collapse (dropWhile isspace s)"
proof (induction s arbitrary: w)
  case Nil
  then show ?case by simp
next
  case (Cons d ds)
  then show ?case by (cases "isspace d") simp_all
qed

lemma collapse_nonspace: "\<not> isspace c \<Longrightarrow> collapse (c # s) = c # collapse s"
  by (cases s) simp_all

lemma collapse_token_append: "(\<forall>c\<in>set t. \<not> isspace c) \<Longrightarrow> collapse (t @ r) = t @ collapse r"
  by (induction t) (simp_all add: collapse_nonspace)

lemma collapse_all_space:
  "(\<forall>c\<in>set s. isspace c) \<Longrightarrow> collapse s = (if s = [] then [] else [32])"
proof (cases s)
  case Nil
  then show ?thesis by simp
next
  case (Cons w ws)
  assume a: "\<forall>c\<in>set s. isspace c"
  with Cons have dw: "dropWhile isspace ws = []" by simp
  from a Cons show ?thesis by (simp add: collapse_space dw)
qed

lemma str_rstrip_append:
  assumes "t \<noteq> []" and "\<not> isspace (last t)"
  shows "str_rstrip (t @ r) = t @ str_rstrip r"
proof -
  from assms have "last t \<in> set (rev t)" and nl: "\<not> isspace (last t)" by simp_all
  have "dropWhile isspace (rev r @ rev t) = dropWhile isspace (rev r) @ rev t"
  proof (cases "\<forall>c\<in>set r. isspace c")
    case True
    then have "dropWhile isspace (rev r @ rev t) = dropWhile isspace (rev t)"
      by (intro dropWhile_append2) simp
    moreover from True have "dropWhile isspace (rev r) = []" by simp
    moreover from assms have "dropWhile isspace (rev t) = rev t"
      by (cases t rule: rev_cases) simp_all
    ultimately show ?thesis by simp
  next
    case False
    then obtain c where "c \<in> set (rev r)" "\<not> isspace c" by auto
    then show ?thesis by (rule dropWhile_append1)
  qed
  then show ?thesis by (simp add: str_rstrip_def)
qed

lemma str_rstrip_space_Cons:
  assumes "\<exists>c\<in>set r. \<not> isspace c"
  shows "str_rstrip (w # r) = w # str_rstrip r"
proof -
  from assms obtain c where "c \<in> set (rev r)" "\<not> isspace c" by auto
  then have "dropWhile isspace (rev r @ [w]) = dropWhile isspace (rev r) @ [w]"
    by (rule dropWhile_append1)
  then show ?thesis by (simp add: str_rstrip_def)
qed

section \<open>Text cleaning\<close>

lemma clean_space_step:
  assumes "isspace c"
  shows "str_split (c # cs) = str_split (dropWhile isspace cs)"
    and "str_strip (collapse (c # cs)) = str_strip (collapse (dropWhile isspace cs))"
  using assms by (simp_all add: str_split_space str_split_dropWhile collapse_space str_strip_def str_lstrip_def)


lemma clean_word_step:
  assumes "\<not> isspace c"
  shows "str_strip (collapse (c # cs)) =
         (c # takeWhile (\<lambda>c. \<not> isspace c) cs) @ str_rstrip (collapse (dropWhile (\<lambda>c. \<not> isspace c) cs))"
proof -
  let ?t = "c # takeWhile (\<lambda>c. \<not> isspace c) cs"
  let ?r = "dropWhile (\<lambda>c. \<not> isspace c) cs"
  have tok: "\<forall>x\<in>set ?t. \<not> isspace x" using assms by (auto dest: set_takeWhileD)
  then have lastt: "\<not> isspace (last ?t)" using last_in_set [of ?t] by blast
  have "collapse (?t @ ?r) = ?t @ collapse ?r"
    by (rule collapse_token_append [OF tok])
  then have c: "collapse (c # cs) = ?t @ collapse ?r" by simp
  have "str_strip (collapse (c # cs)) = str_rstrip (?t @ collapse ?r)"
    unfolding c using assms by (simp add: str_strip_def str_lstrip_def)
  also have "\<dots> = ?t @ str_rstrip (collapse ?r)"
    by (rule str_rstrip_append [OF _ lastt]) simp
  finally show ?thesis .
qed


lemma clean_gap_step:
  assumes "isspace w" and "\<exists>x\<in>set r'. \<not> isspace x"
  shows "str_rstrip (collapse (w # r')) = 32 # str_strip (collapse (dropWhile isspace r'))"
proof -
  let ?q = "dropWhile isspace r'"
  from assms(2) have qne: "?q \<noteq> []" by auto
  then obtain a q' where q: "?q = a # q'" by (cases ?q) auto
  from qne have a: "\<not> isspace a" using hd_dropWhile [of isspace r'] q by simp
  have cq: "collapse ?q = a # collapse q'" unfolding q using a by (rule collapse_nonspace)
  have "str_rstrip (32 # collapse ?q) = 32 # str_rstrip (collapse ?q)"
    by (rule str_rstrip_space_Cons) (use cq a in auto)
  moreover have "str_strip (collapse ?q) = str_rstrip (collapse ?q)"
    unfolding cq using a by (simp add: str_strip_def str_lstrip_def)
  ultimately show ?thesis using assms(1) by (simp add: collapse_space)
qed


lemma join_split_collapse: "str_join [32] (str_split s) = str_strip (collapse s)"
proof (induction s rule: length_induct)
  case (1 s)
  show ?case
  proof (cases s)
    case Nil
    then show ?thesis by (simp add: str_strip_def str_lstrip_def str_rstrip_def)
  next
    case (Cons c cs)
    show ?thesis
    proof (cases "isspace c")
      case True
      let ?r = "dropWhile isspace cs"
      have "length ?r < length s" using Cons length_dropWhile_le [of isspace cs] by simp
      with 1 have "str_join [32] (str_split ?r) = str_strip (collapse ?r)" by blast
      then show ?thesis unfolding Cons by (simp only: clean_space_step [OF True])
    next
      case False
      let ?t = "c # takeWhile (\<lambda>c. \<not> isspace c) cs"
      let ?r = "dropWhile (\<lambda>c. \<not> isspace c) cs"
      have split: "str_split (c # cs) = ?t # str_split ?r"
        using False by (rule str_split_word)
      have lhs: "str_strip (collapse (c # cs)) = ?t @ str_rstrip (collapse ?r)"
        using False by (rule clean_word_step)
      show ?thesis
      proof (cases "\<forall>x\<in>set ?r. isspace x")
        case True
        have sr: "str_split ?r = []" using True str_split_eq_Nil_iff [of ?r] by blast
        have "collapse ?r = (if ?r = [] then [] else [32])"
          using True by (rule collapse_all_space)
        then have "collapse ?r = [] \<or> collapse ?r = [32]"
          by (auto split: if_splits)
        then have "str_rstrip (collapse ?r) = []"
          by (auto simp: str_rstrip_def)
        then show ?thesis unfolding Cons split lhs sr by simp
      next
        case nall: False
        have rne: "?r \<noteq> []"
        proof
          assume e: "?r = []"
          from nall show False unfolding e by simp
        qed
        then obtain w r' where r: "?r = w # r'" by (cases ?r) auto
        from rne have "\<not> \<not> isspace (hd ?r)" by (rule hd_dropWhile)
        with r have w: "isspace w" by simp
        from nall r w have ex: "\<exists>x\<in>set r'. \<not> isspace x" by auto
        let ?q = "dropWhile isspace r'"
        have "length ?r \<le> length cs" by (rule length_dropWhile_le)
        moreover have "length ?r = Suc (length r')" by (simp only: r length_Cons)
        moreover have "length ?q \<le> length r'" by (rule length_dropWhile_le)
        ultimately have "length ?q < length s" unfolding Cons by simp
        with 1 have ih: "str_join [32] (str_split ?q) = str_strip (collapse ?q)" by blast
        have "str_split ?r = str_split ?q"
          unfolding r by (rule clean_space_step(1) [OF w])
        moreover from ex have "str_split ?q \<noteq> []"
          by (simp add: str_split_dropWhile str_split_eq_Nil_iff)
        then obtain y ys where "str_split ?q = y # ys" by (cases "str_split ?q") auto
        moreover have "str_rstrip (collapse ?r) = 32 # str_strip (collapse ?q)"
          unfolding r by (rule clean_gap_step [OF w ex])
        ultimately show ?thesis unfolding Cons split lhs using ih by simp
      qed
    qed
  qed
qed


lemma clean_text_join: "clean_text x = str_join [32] (str_split (map (\<lambda>c. if c = 13 \<or> c = 10 then 32 else c) x))"
proof -
  have "str_replace 13 32 (str_replace 10 32 x) = map (\<lambda>c. if c = 13 \<or> c = 10 then 32 else c) x"
    by (simp add: str_replace_def)
  then show ?thesis by (cases "x = []") (simp_all add: clean_text_def)
qed

lemma str_join_chars:
  "c \<in> set (str_join [32] ts) \<Longrightarrow> c = 32 \<or> (\<exists>t\<in>set ts. c \<in> set t)"
  by (induction "[32::nat]" ts rule: str_join.induct) auto

lemma clean_text_chars:
  assumes "c \<in> set (clean_text x)" and "isspace c"
  shows "c = 32"
proof -
  let ?ts = "str_split (map (\<lambda>c. if c = 13 \<or> c = 10 then 32 else c) x)"
  from assms(1) have "c = 32 \<or> (\<exists>t\<in>set ?ts. c \<in> set t)"
    unfolding clean_text_join by (rule str_join_chars)
  moreover have "\<not> (\<exists>t\<in>set ?ts. c \<in> set t)"
    using assms(2) str_split_tokens by (auto simp: token_def)
  ultimately show ?thesis by blast
qed

lemma clean_text_split:
  "str_split (clean_text x) = str_split (map (\<lambda>c. if c = 13 \<or> c = 10 then 32 else c) x)"
  unfolding clean_text_join by (rule str_split_join) (simp add: str_split_tokens)

lemma clean_text_fixed: "map (\<lambda>c. if c = 13 \<or> c = 10 then 32 else c) (clean_text x) = clean_text x"
proof -
  have "isspace 13" and "isspace 10" by (simp_all add: isspace_def)
  then have "13 \<notin> set (clean_text x)" and "10 \<notin> set (clean_text x)"
    using clean_text_chars [of 13 x] clean_text_chars [of 10 x] by auto
  then have "\<And>c. c \<in> set (clean_text x) \<Longrightarrow> (if c = 13 \<or> c = 10 then 32 else c) = c"
    by auto
  then show ?thesis by (simp add: map_idI)
qed

lemma clean_text_idem: "clean_text (clean_text x) = clean_text x"
proof -
  have "clean_text (clean_text x) = str_join [32] (str_split (clean_text x))"
    by (subst clean_text_join) (simp only: clean_text_fixed)
  also have "\<dots> = clean_text x" by (simp only: clean_text_split clean_text_join [symmetric])
  finally show ?thesis .
qed

text \<open>
  Claim C5. For every string, \<^verbatim>\<open>clean_text\<close> replaces each CR and LF by a space,
  collapses every run of whitespace into a single space and trims leading and trailing
  whitespace (the function \<open>spec_clean\<close>); it is idempotent; and it maps
  \<^verbatim>\<open>"a\n\n  b\r\nc"\<close> to \<^verbatim>\<open>"a b c"\<close>.
\<close>

theorem clean_text_spec:
  "clean_text x = spec_clean x \<and>
   clean_text (clean_text x) = clean_text x \<and>
   clean_text (py ''a'' @ [0x0A, 0x0A, 0x20, 0x20] @ py ''b'' @ [0x0D, 0x0A] @ py ''c'') = py ''a b c''"
proof (intro conjI)
  show "clean_text x = spec_clean x"
    unfolding clean_text_join spec_clean_def by (rule join_split_collapse)
  show "clean_text (clean_text x) = clean_text x" by (rule clean_text_idem)
  show "clean_text (py ''a'' @ [0x0A, 0x0A, 0x20, 0x20] @ py ''b'' @ [0x0D, 0x0A] @ py ''c'') = py ''a b c''"
    by (simp add: clean_text_def str_replace_def str_split_space str_split_word isspace_def)
qed

theorem clean_text_spec_witness:
  "spec_clean ([0x09] @ py ''Deep  Learning'' @ [0x0D, 0x0A] @ py ''Methods '') = py ''Deep Learning Methods''"
  using clean_text_spec [of "[0x09] @ py ''Deep  Learning'' @ [0x0D, 0x0A] @ py ''Methods ''"]
  by (simp add: clean_text_def str_replace_def str_split_space str_split_word isspace_def)

section \<open>Author formatting\<close>

lemma str_strip_eq_Nil_iff: "str_strip s = [] \<longleftrightarrow> blank s"
proof
  assume "blank s"
  then have "dropWhile isspace s = []" by (simp add: blank_def)
  then show "str_strip s = []"
    by (simp only: str_strip_def str_lstrip_def str_rstrip_def rev.simps dropWhile.simps)
next
  assume e: "str_strip s = []"
  show "blank s"
  proof (rule ccontr)
    assume "\<not> blank s"
    then have ne: "dropWhile isspace s \<noteq> []" by (simp add: blank_def)
    then have "\<not> isspace (hd (dropWhile isspace s))" by (rule hd_dropWhile)
    moreover from ne have "hd (dropWhile isspace s) \<in> set (dropWhile isspace s)" by simp
    ultimately have "\<not> (\<forall>c\<in>set (dropWhile isspace s). isspace c)" by blast
    with e show False by (simp add: str_strip_def str_lstrip_def str_rstrip_def)
  qed
qed

lemma str_split_append_space:
  "(\<forall>c\<in>set ws. isspace c) \<Longrightarrow> str_split (s @ ws) = str_split s"
proof (induction s rule: length_induct)
  case (1 s)
  note ws = 1(2)
  show ?case
  proof (cases s)
    case Nil
    with ws show ?thesis by (simp add: str_split_eq_Nil_iff)
  next
    case (Cons c cs)
    show ?thesis
    proof (cases "isspace c")
      case True
      with 1 Cons show ?thesis by (simp add: str_split_space)
    next
      case False
      let ?n = "\<lambda>c. \<not> isspace c"
      show ?thesis
      proof (cases "\<forall>x\<in>set cs. \<not> isspace x")
        case True
        from ws have f1: "takeWhile ?n ws = []" by (cases ws) simp_all
        from ws have f2: "dropWhile ?n ws = ws" by (cases ws) simp_all
        from True have f3: "takeWhile ?n (cs @ ws) = cs @ takeWhile ?n ws"
          by (intro takeWhile_append2) simp
        from True have f4: "dropWhile ?n (cs @ ws) = dropWhile ?n ws"
          by (intro dropWhile_append2) simp
        from True have f5: "takeWhile ?n cs = cs" by simp
        from True have f6: "dropWhile ?n cs = []" by simp
        from ws have f7: "str_split ws = []" by (simp add: str_split_eq_Nil_iff)
        have "str_split (c # (cs @ ws)) = [c # cs]"
          by (simp only: str_split_word [OF False] f1 f2 f3 f4 f7 append_Nil2)
        moreover have "str_split (c # cs) = [c # cs]"
          by (simp only: str_split_word [OF False] f5 f6 str_split_Nil)
        ultimately show ?thesis by (simp only: Cons append_Cons)
      next
        case nall: False
        then obtain x where x: "x \<in> set cs" "\<not> ?n x" by auto
        then have t: "takeWhile ?n (cs @ ws) = takeWhile ?n cs" by (rule takeWhile_append1)
        from x have d: "dropWhile ?n (cs @ ws) = dropWhile ?n cs @ ws" by (rule dropWhile_append1)
        have "length (dropWhile ?n cs) < length s"
          using Cons length_dropWhile_le [of ?n cs] by simp
        with 1 have "str_split (dropWhile ?n cs @ ws) = str_split (dropWhile ?n cs)" by blast
        then show ?thesis using Cons False t d by (simp add: str_split_word)
      qed
    qed
  qed
qed

lemma str_rstrip_decomp:
  "\<exists>ws. (\<forall>c\<in>set ws. isspace c) \<and> s = str_rstrip s @ ws"
proof -
  let ?ws = "rev (takeWhile isspace (rev s))"
  have "rev (takeWhile isspace (rev s) @ dropWhile isspace (rev s)) = s"
    by (simp only: takeWhile_dropWhile_id rev_rev_ident)
  then have "s = str_rstrip s @ ?ws" by (simp only: rev_append str_rstrip_def)
  moreover have "\<forall>c\<in>set ?ws. isspace c" by (auto dest: set_takeWhileD)
  ultimately show ?thesis by blast
qed

lemma str_split_rstrip: "str_split (str_rstrip s) = str_split s"
proof -
  from str_rstrip_decomp [of s] obtain ws
    where ws: "\<forall>c\<in>set ws. isspace c" and s: "s = str_rstrip s @ ws" by blast
  from str_split_append_space [OF ws, of "str_rstrip s"] s show ?thesis by simp
qed

lemma str_split_strip: "str_split (str_strip s) = str_split s"
  by (simp add: str_strip_def str_lstrip_def str_split_rstrip str_split_dropWhile)


lemma str_split_snoc_token:
  "token t \<Longrightarrow> p = [] \<or> isspace (last p) \<Longrightarrow> str_split (p @ t) = str_split p @ [t]"
proof (induction p rule: length_induct)
  case (1 p)
  note t = 1(2) and lp = 1(3)
  show ?case
  proof (cases p)
    case Nil
    with str_split_token_append [OF t, of "[]"] show ?thesis by simp
  next
    case (Cons c cs)
    show ?thesis
    proof (cases "isspace c")
      case True
      have "cs = [] \<or> isspace (last cs)" using lp Cons by (cases "cs = []") simp_all
      moreover have "length cs < length p" using Cons by simp
      ultimately have "str_split (cs @ t) = str_split cs @ [t]" using 1(1) t by blast
      then show ?thesis using Cons True by (simp add: str_split_space)
    next
      case False
      let ?n = "\<lambda>c. \<not> isspace c"
      let ?p' = "dropWhile ?n cs"
      from lp Cons False have csne: "cs \<noteq> []" and lcs: "isspace (last cs)"
        by (cases "cs = []"; simp)+
      then have x: "last cs \<in> set cs" "\<not> ?n (last cs)" by simp_all
      from x have tw: "takeWhile ?n (cs @ t) = takeWhile ?n cs" by (rule takeWhile_append1)
      from x have dw: "dropWhile ?n (cs @ t) = ?p' @ t" by (rule dropWhile_append1)
      have decomp: "cs = takeWhile ?n cs @ ?p'" by simp
      have p'ne: "?p' \<noteq> []"
      proof
        assume e: "?p' = []"
        then have "\<forall>x\<in>set cs. ?n x" by simp
        with x show False by blast
      qed
      from last_appendR [OF p'ne, of "takeWhile ?n cs"]
      have "last cs = last ?p'" by (simp only: takeWhile_dropWhile_id)
      with lcs have "?p' = [] \<or> isspace (last ?p')" by simp
      moreover have "length ?p' < length p"
        using Cons length_dropWhile_le [of ?n cs] by simp
      ultimately have ih: "str_split (?p' @ t) = str_split ?p' @ [t]" using 1(1) t by blast
      have "str_split (c # (cs @ t)) = (c # takeWhile ?n cs) # (str_split ?p' @ [t])"
        by (simp only: str_split_word [OF False] tw dw ih)
      moreover have "str_split (c # cs) = (c # takeWhile ?n cs) # str_split ?p'"
        by (rule str_split_word [OF False])
      ultimately show ?thesis by (simp only: Cons append_Cons)
    qed
  qed
qed

lemma last_str_split:
  assumes "\<not> blank s"
  shows "str_split s \<noteq> []" and "last (str_split s) = last_token s"
proof -
  let ?n = "\<lambda>c. \<not> isspace c"
  let ?s1 = "str_rstrip s"
  let ?t = "last_token s"
  let ?p = "rev (dropWhile ?n (dropWhile isspace (rev s)))"
  from assms show "str_split s \<noteq> []" by (simp add: blank_def str_split_eq_Nil_iff)
  have s1: "?s1 = ?p @ ?t"
  proof -
    have "rev (takeWhile ?n (dropWhile isspace (rev s)) @ dropWhile ?n (dropWhile isspace (rev s)))
          = rev (dropWhile isspace (rev s))"
      by (simp only: takeWhile_dropWhile_id)
    then show ?thesis by (simp only: rev_append str_rstrip_def last_token_def)
  qed
  from assms have ne: "dropWhile isspace (rev s) \<noteq> []" by (simp add: blank_def)
  then have "\<not> isspace (hd (dropWhile isspace (rev s)))" by (rule hd_dropWhile)
  with ne have "takeWhile ?n (dropWhile isspace (rev s)) \<noteq> []"
    by (simp add: takeWhile_eq_Nil_iff)
  then have "?t \<noteq> []" by (simp only: last_token_def rev_is_Nil_conv not_False_eq_True)
  moreover have "\<forall>c\<in>set ?t. \<not> isspace c"
    by (auto simp: last_token_def dest: set_takeWhileD)
  ultimately have tok: "token ?t" by (simp add: token_def)
  have "?p = [] \<or> isspace (last ?p)"
  proof (cases "dropWhile ?n (dropWhile isspace (rev s)) = []")
    case True
    then show ?thesis by (simp only: rev.simps) simp
  next
    case False
    then have "\<not> ?n (hd (dropWhile ?n (dropWhile isspace (rev s))))" by (rule hd_dropWhile)
    with False show ?thesis by (simp add: last_rev)
  qed
  with tok have "str_split (?p @ ?t) = str_split ?p @ [?t]" by (rule str_split_snoc_token)
  then have "str_split s = str_split ?p @ [?t]"
    by (simp only: s1 [symmetric] str_split_rstrip)
  then show "last (str_split s) = ?t" by simp
qed

lemma extract_last_name_surname: "extract_last_name s = surname s"
proof (cases "blank s")
  case True
  then have "str_split s = []" by (simp add: blank_def str_split_eq_Nil_iff)
  with True show ?thesis
    by (simp add: extract_last_name_def surname_def str_split_strip)
next
  case False
  from last_str_split [OF False] False show ?thesis
    by (simp add: extract_last_name_def surname_def str_split_strip)
qed

lemma format_authors_spec: "format_authors names = spec_format names"
proof -
  let ?ns = "map surname (filter (\<lambda>n. \<not> blank n) names)"
  have eq: "map extract_last_name (filter (\<lambda>author. str_strip author \<noteq> []) names) = ?ns"
    by (simp add: str_strip_eq_Nil_iff extract_last_name_surname [abs_def])
  show ?thesis
  proof (cases "names = []")
    case True
    then show ?thesis by (simp add: format_authors_def spec_format_def)
  next
    case False
    then have f: "format_authors names =
      (if length ?ns = 1 then ?ns ! 0
       else if length ?ns = 2 then (?ns ! 0) @ py '' and '' @ (?ns ! 1)
       else if length ?ns > 2 then (?ns ! 0) @ py '' et al''
       else [])"
      unfolding format_authors_def eq by (simp only: if_False Let_def)
    show ?thesis
    proof (cases ?ns)
      case Nil
      then show ?thesis unfolding f spec_format_def by simp
    next
      case c1: (Cons a as)
      show ?thesis
      proof (cases as)
        case Nil
        with c1 show ?thesis unfolding f spec_format_def by simp
      next
        case c2: (Cons b bs)
        show ?thesis
        proof (cases bs)
          case Nil
          with c1 c2 show ?thesis unfolding f spec_format_def by simp
        next
          case (Cons c cs)
          with c1 c2 show ?thesis unfolding f spec_format_def by simp
        qed
      qed
    qed
  qed
qed

lemmas str_eval = str_split_space str_split_word isspace_def str_strip_def str_lstrip_def
  str_rstrip_def

text \<open>
Claim C2. For every list of author names, \<^verbatim>\<open>format_authors\<close> drops the blank
  (whitespace-only) names, reduces each remaining name to its last whitespace-delimited
  token, and returns the empty string for no name, the surname for one, the two surnames
  joined by \<^verbatim>\<open>" and "\<close> for two, and the first surname followed by \<^verbatim>\<open>" et al"\<close>
  for three or more (the function \<open>spec_format\<close>); the four examples of the
  specification hold.
\<close>

theorem format_authors_correct:
  "format_authors names = spec_format names \<and>
   extract_last_name n = surname n \<and>
   format_authors [] = [] \<and>
   format_authors [py ''Jane Doe''] = py ''Doe'' \<and>
   format_authors [py ''Jane Doe'', py ''John Q Smith''] = py ''Doe and Smith'' \<and>
   format_authors [py ''A B'', py ''C D'', py ''E F''] = py ''B et al''"
proof (intro conjI)
  show "format_authors names = spec_format names" by (rule format_authors_spec)
  show "extract_last_name n = surname n" by (rule extract_last_name_surname)
  show "format_authors [] = []" by (simp add: format_authors_def)
  show "format_authors [py ''Jane Doe''] = py ''Doe''"
    by (simp add: format_authors_def extract_last_name_def str_eval)
  show "format_authors [py ''Jane Doe'', py ''John Q Smith''] = py ''Doe and Smith''"
    by (simp add: format_authors_def extract_last_name_def str_eval)
  show "format_authors [py ''A B'', py ''C D'', py ''E F''] = py ''B et al''"
    by (simp add: format_authors_def extract_last_name_def str_eval)
qed

theorem format_authors_correct_witness:
  "spec_format [py ''Ada Lovelace'', py ''   '', py '' Alan M. Turing ''] = py ''Lovelace and Turing''"
  using format_authors_correct [of "[py ''Ada Lovelace'', py ''   '', py '' Alan M. Turing '']"]
  by (simp add: format_authors_def extract_last_name_def str_eval)

section \<open>Year extraction\<close>

lemma re_match_year_pattern:
  "re_match U s year_pattern i = (if year_at U s i then [i + 4] else [])"
proof -
  have n: "i + 4 = Suc (Suc (Suc (Suc i)))" "i + 3 = Suc (Suc (Suc i))" "i + 2 = Suc (Suc i)"
    "i + 1 = Suc i" by simp_all
  have l: "Suc (Suc (Suc (Suc i))) \<le> length s \<longleftrightarrow> Suc (Suc (Suc i)) < length s" by auto
  show ?thesis unfolding year_pattern_def year_at_def n l by auto
qed

lemma re_search_from_year:
  "re_search_from U year_pattern s js =
     (case find (year_at U s) js of None \<Rightarrow> None | Some i \<Rightarrow> Some (i, i + 4))"
  by (induction js) (simp_all add: re_match_year_pattern)

lemma extract_year_find:
  "extract_year_from_date U s =
     (case find (year_at U s) [0 ..< Suc (length s)] of None \<Rightarrow> [] | Some i \<Rightarrow> take 4 (drop i s))"
proof (cases "s = []")
  case True
  then show ?thesis by (simp add: extract_year_from_date_def year_at_def)
next
  case False
  then show ?thesis
    by (simp add: extract_year_from_date_def re_search_def re_search_from_year group_def
        split: option.split)
qed

lemma extract_year_none:
  assumes "\<forall>i. \<not> year_at U s i"
  shows "extract_year_from_date U s = []"
proof -
  from assms have "find (year_at U s) [0 ..< Suc (length s)] = None"
    by (simp add: find_None_iff)
  then show ?thesis by (simp add: extract_year_find)
qed

lemma extract_year_first:
  assumes "year_at U s i" and "\<forall>j<i. \<not> year_at U s j"
  shows "extract_year_from_date U s = take 4 (drop i s)"
proof -
  from assms(1) have i: "i < Suc (length s)" by (simp add: year_at_def)
  have "find (year_at U s) [0 ..< Suc (length s)] = Some i"
    unfolding find_Some_iff
  proof (intro exI [of _ i] conjI)
    show "i < length [0 ..< Suc (length s)]" using i by simp
    show "year_at U s ([0 ..< Suc (length s)] ! i)" using i assms(1) by (simp add: nth_upt del: upt_Suc)
    show "i = [0 ..< Suc (length s)] ! i" using i by (simp add: nth_upt del: upt_Suc)
    show "\<forall>j<i. \<not> year_at U s ([0 ..< Suc (length s)] ! j)"
      using i assms(2) by (simp add: nth_upt del: upt_Suc)
  qed
  then show ?thesis by (simp add: extract_year_find)
qed

lemma extract_year_least:
  "extract_year_from_date U s =
     (if \<exists>i. year_at U s i then take 4 (drop (LEAST i. year_at U s i) s) else [])"
proof (cases "\<exists>i. year_at U s i")
  case True
  then obtain k where k: "year_at U s k" ..
  let ?i = "LEAST i. year_at U s i"
  from k have "year_at U s ?i" by (rule LeastI)
  moreover have "\<forall>j<?i. \<not> year_at U s j" using not_less_Least by blast
  ultimately have "extract_year_from_date U s = take 4 (drop ?i s)" by (rule extract_year_first)
  with True show ?thesis by simp
next
  case False
  then show ?thesis by (simp add: extract_year_none)
qed

lemmas year_eval = extract_year_from_date_def re_search_def year_pattern_def group_def
  at_boundary_def re_word_def re_digit_def upt_rec

text \<open>
Claim C3. For every date string, \<^verbatim>\<open>extract_year_from_date\<close> returns the first
  (leftmost) substring that is a four-digit number beginning with 19 or 20 and bounded by
  word boundaries (\<open>year_at\<close> holds at its start index), and the empty string when no
  such substring exists; the four examples of the specification hold.
\<close>

theorem extract_year_from_date_correct:
  "extract_year_from_date U s =
     (if \<exists>i. year_at U s i then take 4 (drop (LEAST i. year_at U s i) s) else []) \<and>
   extract_year_from_date U (py ''March 15, 2021'') = py ''2021'' \<and>
   extract_year_from_date U (py ''circa 1850s'') = [] \<and>
   extract_year_from_date U (py ''2023-2024 conference'') = py ''2023'' \<and>
   extract_year_from_date U [] = []"
proof (intro conjI)
  show "extract_year_from_date U s =
     (if \<exists>i. year_at U s i then take 4 (drop (LEAST i. year_at U s i) s) else [])"
    by (rule extract_year_least)
  show "extract_year_from_date U (py ''March 15, 2021'') = py ''2021''"
    by (simp add: year_eval)
  show "extract_year_from_date U (py ''circa 1850s'') = []"
    by (simp add: year_eval)
  show "extract_year_from_date U (py ''2023-2024 conference'') = py ''2023''"
    by (simp add: year_eval)
  show "extract_year_from_date U [] = []"
    by (simp add: extract_year_from_date_def)
qed

theorem extract_year_from_date_correct_witness:
  "(\<exists>i. year_at \<lparr>uni_decimal = (\<lambda>c. False), uni_alnum = (\<lambda>c. False)\<rparr> (py ''May 1999a 2004'') i) \<and>
   take 4 (drop (LEAST i. year_at \<lparr>uni_decimal = (\<lambda>c. False), uni_alnum = (\<lambda>c. False)\<rparr> (py ''May 1999a 2004'') i)
     (py ''May 1999a 2004'')) = py ''2004''"
proof -
  let ?U = "\<lparr>uni_decimal = (\<lambda>c. False), uni_alnum = (\<lambda>c. False)\<rparr>"
  have e: "extract_year_from_date ?U (py ''May 1999a 2004'') = py ''2004''"
    by (simp add: year_eval)
  from extract_year_from_date_correct [of ?U "py ''May 1999a 2004''"]
  have t: "extract_year_from_date ?U (py ''May 1999a 2004'') =
     (if \<exists>i. year_at ?U (py ''May 1999a 2004'') i
      then take 4 (drop (LEAST i. year_at ?U (py ''May 1999a 2004'') i) (py ''May 1999a 2004'')) else [])"
    by (rule conjunct1)
  have ex: "\<exists>i. year_at ?U (py ''May 1999a 2004'') i"
  proof (rule ccontr)
    assume "\<not> ?thesis"
    with t have "extract_year_from_date ?U (py ''May 1999a 2004'') = []" by (simp only: if_False)
    with e show False by simp
  qed
  with t e show ?thesis by (simp only: if_True)
qed

section \<open>Row scanning and \<^verbatim>\<open>parse_article\<close>\<close>

lemma field_table_Nil [simp]: "field_table [] = []"
  by (simp add: field_table_def)

lemma field_table_Cons:
  "field_table (r # rs) = (case row_field r of None \<Rightarrow> field_table rs | Some f \<Rightarrow> f # field_table rs)"
  by (simp add: field_table_def split: option.split)

lemma scan_row_None: "row_field r = None \<Longrightarrow> scan_row U r d = Inr d"
  by (auto simp: row_field_def scan_row_def split: option.splits)

lemma scan_row_Some:
  "row_field r = Some (l, v) \<Longrightarrow>
   scan_row U r d =
     (if l = py ''Date'' then Inr (d(py ''year'' \<mapsto> extract_year_from_date U v))
      else if l \<in> {py ''Publication'', py ''Proceedings Title'', py ''Publisher''}
      then (case d (py ''journal'') of
              None \<Rightarrow> Inl (KeyError (py ''journal''))
            | Some j \<Rightarrow> if j = [] then Inr (d(py ''journal'' \<mapsto> v)) else Inr d)
      else if l = py ''Abstract'' then Inr (d(py ''abstract'' \<mapsto> v))
      else Inr d)"
  by (auto simp: row_field_def scan_row_def getitem_def Let_def split: option.splits)


lemma scan_rows_total:
  "d (py ''journal'') \<noteq> None \<Longrightarrow> \<exists>d'. scan_rows U rows d = Inr d'"
proof (induction rows arbitrary: d)
  case Nil
  show ?case by simp
next
  case (Cons r rs)
  from Cons.prems obtain j where j: "d (py ''journal'') = Some j" by auto
  have "\<exists>d1. scan_row U r d = Inr d1 \<and> d1 (py ''journal'') \<noteq> None"
  proof (cases "row_field r")
    case None
    with j show ?thesis by (simp add: scan_row_None)
  next
    case (Some f)
    obtain l v where "f = (l, v)" by (cases f)
    with Some j show ?thesis by (simp add: scan_row_Some)
  qed
  then obtain d1 where d1: "scan_row U r d = Inr d1" "d1 (py ''journal'') \<noteq> None" by blast
  from Cons.IH [of d1] d1 show ?case by simp
qed

lemma scan_rows_other:
  assumes "scan_rows U rows d = Inr d'"
    and "k \<noteq> py ''year''" and "k \<noteq> py ''journal''" and "k \<noteq> py ''abstract''"
  shows "d' k = d k"
  using assms(1)
proof (induction rows arbitrary: d)
  case Nil
  then show ?case by simp
next
  case (Cons r rs)
  then obtain d1 where d1: "scan_row U r d = Inr d1" and rest: "scan_rows U rs d1 = Inr d'"
    by (auto split: sum.splits)
  have "d1 k = d k"
  proof (cases "row_field r")
    case None
    with d1 show ?thesis by (simp add: scan_row_None)
  next
    case (Some f)
    obtain l v where "f = (l, v)" by (cases f)
    with Some d1 assms(2-4) show ?thesis
      by (auto simp: scan_row_Some split: if_splits option.splits)
  qed
  with Cons.IH [OF rest] show ?case by simp
qed

lemma scan_row_dom:
  assumes "scan_row U r d = Inr d1"
  shows "dom d \<subseteq> dom d1 \<and> dom d1 \<subseteq> dom d \<union> {py ''year'', py ''journal'', py ''abstract''}"
proof (cases "row_field r")
  case None
  with assms show ?thesis by (auto simp: scan_row_None)
next
  case (Some f)
  obtain l v where "f = (l, v)" by (cases f)
  with Some assms show ?thesis
    by (auto simp: scan_row_Some split: if_splits option.splits)
qed

lemma scan_rows_dom:
  "scan_rows U rows d = Inr d' \<Longrightarrow>
   dom d \<subseteq> dom d' \<and> dom d' \<subseteq> dom d \<union> {py ''year'', py ''journal'', py ''abstract''}"
proof (induction rows arbitrary: d)
  case Nil
  then show ?case by auto
next
  case (Cons r rs)
  then obtain d1 where d1: "scan_row U r d = Inr d1" and rest: "scan_rows U rs d1 = Inr d'"
    by (auto split: sum.splits)
  from scan_row_dom [OF d1] Cons.IH [OF rest] show ?case by blast
qed


lemma scan_rows_year:
  "scan_rows U rows d = Inr d' \<Longrightarrow>
   d' (py ''year'') =
     (case filter (\<lambda>f. fst f = py ''Date'') (field_table rows) of
        [] \<Rightarrow> d (py ''year'')
      | f # fs \<Rightarrow> Some (extract_year_from_date U (snd (last (f # fs)))))"
proof (induction rows arbitrary: d)
  case Nil
  then show ?case by simp
next
  case (Cons r rs)
  then obtain d1 where d1: "scan_row U r d = Inr d1" and rest: "scan_rows U rs d1 = Inr d'"
    by (auto split: sum.splits)
  note ih = Cons.IH [OF rest]
  show ?case
  proof (cases "row_field r")
    case None
    with d1 have "d1 = d" by (simp add: scan_row_None)
    with ih None show ?thesis by (auto simp: field_table_Cons split: list.splits)
  next
    case (Some f)
    obtain l v where f: "f = (l, v)" by (cases f)
    show ?thesis
    proof (cases "l = py ''Date''")
      case True
      with Some f d1 have "d1 = d(py ''year'' \<mapsto> extract_year_from_date U v)"
        by (simp add: scan_row_Some)
      with ih Some f True show ?thesis
        by (auto simp: field_table_Cons split: list.splits)
    next
      case False
      with Some f d1 have "d1 (py ''year'') = d (py ''year'')"
        by (auto simp: scan_row_Some split: if_splits option.splits)
      with ih Some f False show ?thesis by (auto simp: field_table_Cons split: list.splits)
    qed
  qed
qed

lemma scan_rows_abstract:
  "scan_rows U rows d = Inr d' \<Longrightarrow>
   d' (py ''abstract'') =
     (case filter (\<lambda>f. fst f = py ''Abstract'') (field_table rows) of
        [] \<Rightarrow> d (py ''abstract'')
      | f # fs \<Rightarrow> Some (snd (last (f # fs))))"
proof (induction rows arbitrary: d)
  case Nil
  then show ?case by simp
next
  case (Cons r rs)
  then obtain d1 where d1: "scan_row U r d = Inr d1" and rest: "scan_rows U rs d1 = Inr d'"
    by (auto split: sum.splits)
  note ih = Cons.IH [OF rest]
  show ?case
  proof (cases "row_field r")
    case None
    with d1 have "d1 = d" by (simp add: scan_row_None)
    with ih None show ?thesis by (auto simp: field_table_Cons split: list.splits)
  next
    case (Some f)
    obtain l v where f: "f = (l, v)" by (cases f)
    show ?thesis
    proof (cases "l = py ''Abstract''")
      case True
      with Some f d1 have "d1 = d(py ''abstract'' \<mapsto> v)"
        by (simp add: scan_row_Some)
      with ih Some f True show ?thesis
        by (auto simp: field_table_Cons split: list.splits)
    next
      case False
      with Some f d1 have "d1 (py ''abstract'') = d (py ''abstract'')"
        by (auto simp: scan_row_Some split: if_splits option.splits)
      with ih Some f False show ?thesis by (auto simp: field_table_Cons split: list.splits)
    qed
  qed
qed

lemma scan_rows_journal:
  "scan_rows U rows d = Inr d' \<Longrightarrow> d (py ''journal'') = Some j \<Longrightarrow>
   d' (py ''journal'') = Some (if j \<noteq> [] then j else spec_journal (field_table rows))"
proof (induction rows arbitrary: d j)
  case Nil
  then show ?case by (simp add: spec_journal_def)
next
  case (Cons r rs)
  from Cons.prems(1) obtain d1 where d1: "scan_row U r d = Inr d1"
    and rest: "scan_rows U rs d1 = Inr d'"
    by (auto split: sum.splits)
  note j = Cons.prems(2)
  show ?case
  proof (cases "row_field r")
    case None
    with d1 have "d1 = d" by (simp add: scan_row_None)
    with Cons.IH [OF rest, of j] j None show ?thesis
      by (simp add: field_table_Cons)
  next
    case (Some f)
    obtain l v where f: "f = (l, v)" by (cases f)
    show ?thesis
    proof (cases "l \<in> {py ''Publication'', py ''Proceedings Title'', py ''Publisher''}")
      case venue: True
      then have nd: "l \<noteq> py ''Date''" by auto
      show ?thesis
      proof (cases "j = []")
        case True
        with Some f d1 j venue nd have d1j: "d1 (py ''journal'') = Some v"
          by (auto simp: scan_row_Some)
        from Cons.IH [OF rest d1j] True Some f venue show ?thesis
          by (simp add: field_table_Cons spec_journal_def venue_field_def)
      next
        case False
        with Some f d1 j venue nd have "d1 (py ''journal'') = Some j"
          by (auto simp: scan_row_Some)
        from Cons.IH [OF rest this] False show ?thesis by simp
      qed
    next
      case False
      with Some f d1 j have "d1 (py ''journal'') = Some j"
        by (auto simp: scan_row_Some split: if_splits)
      from Cons.IH [OF rest this] False Some f show ?thesis
        by (simp add: field_table_Cons spec_journal_def venue_field_def)
    qed
  qed
qed


lemma parse_article_result:
  "\<exists>d names. parse_article U e = Inr d \<and>
     d (py ''title'') = Some (extracted_title e) \<and>
     d (py ''author(s)'') = Some (format_authors names) \<and>
     d (py ''year'') = Some (spec_year U (entry_fields e)) \<and>
     d (py ''journal'') = Some (spec_journal (entry_fields e)) \<and>
     d (py ''abstract'') = Some (spec_abstract (entry_fields e)) \<and>
     dom d = {py ''title'', py ''author(s)'', py ''year'', py ''journal'', py ''abstract''}"
proof -
  define d0 :: pydict where "d0 =
    [py ''title'' \<mapsto> [], py ''author(s)'' \<mapsto> [], py ''year'' \<mapsto> [],
     py ''journal'' \<mapsto> [], py ''abstract'' \<mapsto> []]"
  define d1 where "d1 =
    (case entry_h2 e of
       Some title_element \<Rightarrow> d0(py ''title'' \<mapsto> clean_text (get_text_strip title_element))
     | None \<Rightarrow> d0)"
  have d1: "d1 (py ''title'') = Some (extracted_title e)" "d1 (py ''author(s)'') = Some []"
    "d1 (py ''year'') = Some []" "d1 (py ''journal'') = Some []" "d1 (py ''abstract'') = Some []"
    "dom d1 = {py ''title'', py ''author(s)'', py ''year'', py ''journal'', py ''abstract''}"
    by (auto simp: d1_def d0_def extracted_title_def split: option.splits if_splits)
  have pa: "parse_article U e =
    (case entry_table e of
       None \<Rightarrow> Inr d1
     | Some tbl \<Rightarrow>
         scan_rows U (table_rows tbl)
           (d1(py ''author(s)'' \<mapsto> format_authors (collect_authors (author_tds tbl) []))))"
    unfolding parse_article_def d1_def d0_def Let_def by (rule refl)
  show ?thesis
  proof (cases "entry_table e")
    case None
    have "format_authors [] = []" by (simp add: format_authors_def)
    with None d1 pa show ?thesis
      by (intro exI [of _ d1] exI [of _ "[]"])
        (simp add: entry_fields_def spec_year_def spec_journal_def spec_abstract_def)
  next
    case (Some tbl)
    let ?names = "collect_authors (author_tds tbl) []"
    let ?d2 = "d1(py ''author(s)'' \<mapsto> format_authors ?names)"
    let ?fs = "field_table (table_rows tbl)"
    have d2: "?d2 (py ''title'') = Some (extracted_title e)"
      "?d2 (py ''author(s)'') = Some (format_authors ?names)"
      "?d2 (py ''year'') = Some []" "?d2 (py ''journal'') = Some []"
      "?d2 (py ''abstract'') = Some []"
      using d1(1-5) by simp_all
    have dom2: "dom ?d2 = {py ''title'', py ''author(s)'', py ''year'', py ''journal'', py ''abstract''}"
      using d1(6) by auto
    from d2(4) have "?d2 (py ''journal'') \<noteq> None" by simp
    with scan_rows_total [of ?d2 U "table_rows tbl"]
    obtain d' where d': "scan_rows U (table_rows tbl) ?d2 = Inr d'"
      by blast
    have ef: "entry_fields e = ?fs" using Some by (simp add: entry_fields_def)
    have "d' (py ''title'') = ?d2 (py ''title'')"
      by (rule scan_rows_other [OF d']) simp_all
    with d2(1) have t: "d' (py ''title'') = Some (extracted_title e)" by simp
    have "d' (py ''author(s)'') = ?d2 (py ''author(s)'')"
      by (rule scan_rows_other [OF d']) simp_all
    with d2(2) have a: "d' (py ''author(s)'') = Some (format_authors ?names)" by simp
    have y: "d' (py ''year'') = Some (spec_year U ?fs)"
      using scan_rows_year [OF d'] d2(3) by (simp add: spec_year_def split: list.splits)
    have j: "d' (py ''journal'') = Some (spec_journal ?fs)"
      using scan_rows_journal [OF d' d2(4)] by simp
    have b: "d' (py ''abstract'') = Some (spec_abstract ?fs)"
      using scan_rows_abstract [OF d'] d2(5) by (simp add: spec_abstract_def split: list.splits)
    have "dom d' = {py ''title'', py ''author(s)'', py ''year'', py ''journal'', py ''abstract''}"
      using scan_rows_dom [OF d'] unfolding dom2 by blast
    with t a y j b d' pa Some ef show ?thesis
      by (intro exI [of _ d'] exI [of _ ?names]) simp
  qed
qed

section \<open>Journal, abstract and year\<close>

lemma clean_text_eq_Nil_iff: "clean_text x = [] \<longleftrightarrow> blank x"
proof -
  let ?f = "\<lambda>c. if c = 13 \<or> c = 10 then 32 else c"
  have sp: "isspace (?f c) \<longleftrightarrow> isspace c" for c by (simp add: isspace_def)
  have "str_join [32] ts = [] \<longleftrightarrow> ts = []" if "\<forall>t\<in>set ts. token t" for ts
    using that by (induction "[32::nat]" ts rule: str_join.induct) (auto simp: token_def)
  then have "clean_text x = [] \<longleftrightarrow> str_split (map ?f x) = []"
    unfolding clean_text_join using str_split_tokens by blast
  also have "\<dots> \<longleftrightarrow> (\<forall>c\<in>set x. isspace (?f c))"
    unfolding str_split_eq_Nil_iff set_map by blast
  also have "\<dots> \<longleftrightarrow> blank x" unfolding sp by (simp add: blank_def)
  finally show ?thesis .
qed

lemma str_strip_not_blank: "str_strip t \<noteq> [] \<Longrightarrow> \<not> blank (str_strip t)"
proof -
  assume ne: "str_strip t \<noteq> []"
  then have "dropWhile isspace (rev (str_lstrip t)) \<noteq> []"
    by (simp add: str_strip_def str_rstrip_def)
  then have "\<not> isspace (hd (dropWhile isspace (rev (str_lstrip t))))"
    and "hd (dropWhile isspace (rev (str_lstrip t))) \<in> set (dropWhile isspace (rev (str_lstrip t)))"
    by (rule hd_dropWhile, rule hd_in_set)
  then have "\<exists>c\<in>set (str_strip t). \<not> isspace c"
    by (auto simp: str_strip_def str_rstrip_def)
  then show ?thesis by (simp add: blank_def)
qed

lemma get_text_strip_blank: "blank (get_text_strip el) \<longleftrightarrow> get_text_strip el = []"
proof
  assume "get_text_strip el = []"
  then show "blank (get_text_strip el)" by (simp add: blank_def)
next
  assume b: "blank (get_text_strip el)"
  show "get_text_strip el = []"
  proof (rule ccontr)
    assume "get_text_strip el \<noteq> []"
    then obtain t where t: "t \<in> set el" "str_strip t \<noteq> []"
      by (auto simp: get_text_strip_def)
    from str_strip_not_blank [OF t(2)] obtain c where c: "c \<in> set (str_strip t)" "\<not> isspace c"
      by (auto simp: blank_def)
    with t have "c \<in> set (get_text_strip el)" by (auto simp: get_text_strip_def)
    with b c(2) show False by (simp add: blank_def)
  qed
qed

lemma clean_get_text_Nil: "clean_text (get_text_strip el) = [] \<longleftrightarrow> get_text_strip el = []"
  by (simp add: clean_text_eq_Nil_iff get_text_strip_blank)


lemmas entry_eval = entry_fields_def field_table_def row_field_def get_text_strip_def
  clean_text_def str_replace_def str_eval

text \<open>
  Claim C4. For every entry, the record's journal is the cleaned value of the first row,
  in row-scan order, whose label is Publication, Proceedings Title or Publisher and whose
  value is non-empty (\<open>spec_journal\<close> on the entry's field table; a value is empty exactly
  when its cleaned form is); later rows of the group are ignored. Proceedings Title = X
  before Publisher = Y gives X, and the reversed order gives Y.
\<close>

theorem journal_first_match:
  "(\<exists>d. parse_article U e = Inr d \<and> d (py ''journal'') = Some (spec_journal (entry_fields e))) \<and>
   (\<forall>el. clean_text (get_text_strip el) = [] \<longleftrightarrow> get_text_strip el = []) \<and>
   (\<exists>d. parse_article U
      \<lparr>entry_h2 = None, entry_table = Some \<lparr>author_tds = [], table_rows =
        [\<lparr>row_th = Some [py ''Proceedings Title''], row_td = Some [py ''X'']\<rparr>,
         \<lparr>row_th = Some [py ''Publisher''], row_td = Some [py ''Y'']\<rparr>]\<rparr>\<rparr> = Inr d \<and>
      d (py ''journal'') = Some (py ''X'')) \<and>
   (\<exists>d. parse_article U
      \<lparr>entry_h2 = None, entry_table = Some \<lparr>author_tds = [], table_rows =
        [\<lparr>row_th = Some [py ''Publisher''], row_td = Some [py ''Y'']\<rparr>,
         \<lparr>row_th = Some [py ''Proceedings Title''], row_td = Some [py ''X'']\<rparr>]\<rparr>\<rparr> = Inr d \<and>
      d (py ''journal'') = Some (py ''Y''))"
proof (intro conjI)
  show "\<exists>d. parse_article U e = Inr d \<and> d (py ''journal'') = Some (spec_journal (entry_fields e))"
    for e using parse_article_result [of U e] by blast
  note general = this
  show "\<forall>el. clean_text (get_text_strip el) = [] \<longleftrightarrow> get_text_strip el = []"
    by (simp add: clean_get_text_Nil)
  let ?e1 = "\<lparr>entry_h2 = None, entry_table = Some \<lparr>author_tds = [], table_rows =
        [\<lparr>row_th = Some [py ''Proceedings Title''], row_td = Some [py ''X'']\<rparr>,
         \<lparr>row_th = Some [py ''Publisher''], row_td = Some [py ''Y'']\<rparr>]\<rparr>\<rparr>"
  let ?e2 = "\<lparr>entry_h2 = None, entry_table = Some \<lparr>author_tds = [], table_rows =
        [\<lparr>row_th = Some [py ''Publisher''], row_td = Some [py ''Y'']\<rparr>,
         \<lparr>row_th = Some [py ''Proceedings Title''], row_td = Some [py ''X'']\<rparr>]\<rparr>\<rparr>"
  have "spec_journal (entry_fields ?e1) = py ''X''"
    by (simp add: spec_journal_def venue_field_def entry_eval)
  with general [of ?e1]
  show "\<exists>d. parse_article U ?e1 = Inr d \<and> d (py ''journal'') = Some (py ''X'')" by simp
  have "spec_journal (entry_fields ?e2) = py ''Y''"
    by (simp add: spec_journal_def venue_field_def entry_eval)
  with general [of ?e2]
  show "\<exists>d. parse_article U ?e2 = Inr d \<and> d (py ''journal'') = Some (py ''Y'')" by simp
qed

theorem journal_first_match_witness:
  "\<exists>d. parse_article \<lparr>uni_decimal = (\<lambda>c. False), uni_alnum = (\<lambda>c. False)\<rparr>
      \<lparr>entry_h2 = Some [py ''Study A''], entry_table = Some \<lparr>author_tds = [], table_rows =
        [\<lparr>row_th = Some [py ''Publication''], row_td = Some [py ''  '']\<rparr>,
         \<lparr>row_th = Some [py ''Pages''], row_td = Some [py ''1-9'']\<rparr>,
         \<lparr>row_th = Some [py ''Publisher''], row_td = Some [py ''ACM '', py '' Press'']\<rparr>,
         \<lparr>row_th = Some [py ''Publication''], row_td = Some [py ''Journal Q'']\<rparr>]\<rparr>\<rparr> = Inr d \<and>
      d (py ''journal'') = Some (py ''ACMPress'')"
  using journal_first_match [of "\<lparr>uni_decimal = (\<lambda>c. False), uni_alnum = (\<lambda>c. False)\<rparr>"
      "\<lparr>entry_h2 = Some [py ''Study A''], entry_table = Some \<lparr>author_tds = [], table_rows =
        [\<lparr>row_th = Some [py ''Publication''], row_td = Some [py ''  '']\<rparr>,
         \<lparr>row_th = Some [py ''Pages''], row_td = Some [py ''1-9'']\<rparr>,
         \<lparr>row_th = Some [py ''Publisher''], row_td = Some [py ''ACM '', py '' Press'']\<rparr>,
         \<lparr>row_th = Some [py ''Publication''], row_td = Some [py ''Journal Q'']\<rparr>]\<rparr>\<rparr>"]
  by (simp add: spec_journal_def venue_field_def entry_eval)

text \<open>
  Claim C6. For every entry, the record's abstract is the cleaned value of the last row
  labelled Abstract in row-scan order, and the empty string when there is no such row
  (\<open>spec_abstract\<close> on the entry's field table).
\<close>

theorem abstract_last_wins:
  "\<exists>d. parse_article U e = Inr d \<and> d (py ''abstract'') = Some (spec_abstract (entry_fields e))"
  using parse_article_result [of U e] by blast

theorem abstract_last_wins_witness:
  "\<exists>d. parse_article \<lparr>uni_decimal = (\<lambda>c. False), uni_alnum = (\<lambda>c. False)\<rparr>
      \<lparr>entry_h2 = Some [py ''Study A''], entry_table = Some \<lparr>author_tds = [], table_rows =
        [\<lparr>row_th = Some [py ''Abstract''], row_td = Some [py ''First text'']\<rparr>,
         \<lparr>row_th = Some [py ''Date''], row_td = Some [py ''2019-05'']\<rparr>,
         \<lparr>row_th = Some [py ''Abstract''], row_td = Some [py ''Second'' @ [0x0A] @ py ''text'']\<rparr>,
         \<lparr>row_th = Some [py ''Abstract''], row_td = None\<rparr>]\<rparr>\<rparr> = Inr d \<and>
      d (py ''abstract'') = Some (py ''Second text'')"
  using abstract_last_wins [of "\<lparr>uni_decimal = (\<lambda>c. False), uni_alnum = (\<lambda>c. False)\<rparr>"
      "\<lparr>entry_h2 = Some [py ''Study A''], entry_table = Some \<lparr>author_tds = [], table_rows =
        [\<lparr>row_th = Some [py ''Abstract''], row_td = Some [py ''First text'']\<rparr>,
         \<lparr>row_th = Some [py ''Date''], row_td = Some [py ''2019-05'']\<rparr>,
         \<lparr>row_th = Some [py ''Abstract''], row_td = Some [py ''Second'' @ [0x0A] @ py ''text'']\<rparr>,
         \<lparr>row_th = Some [py ''Abstract''], row_td = None\<rparr>]\<rparr>\<rparr>"]
  by (simp add: spec_abstract_def entry_eval)

lemma year_at_extract_nonempty:
  assumes "year_at U s i"
  shows "extract_year_from_date U s \<noteq> []"
proof -
  let ?k = "LEAST i. year_at U s i"
  from assms have "year_at U s ?k" by (rule LeastI)
  then have "?k + 4 \<le> length s" by (simp add: year_at_def)
  then have "length (take 4 (drop ?k s)) = 4" by simp
  then have "take 4 (drop ?k s) \<noteq> []" by auto
  moreover from assms have "extract_year_from_date U s = take 4 (drop ?k s)"
    by (subst extract_year_least) auto
  ultimately show ?thesis by simp
qed

text \<open>
  Claim C9. For every entry, the record's year is the year extracted from the last row
  labelled Date in row-scan order (\<open>spec_year\<close> on the entry's field table); in
  particular, when the value of the last Date row has no match, the year is the empty
  string whatever the earlier Date rows hold.
\<close>

theorem year_last_date_wins:
  "(\<exists>d. parse_article U e = Inr d \<and> d (py ''year'') = Some (spec_year U (entry_fields e))) \<and>
   (\<forall>fs f. filter (\<lambda>f. fst f = py ''Date'') (entry_fields e) = fs @ [f] \<and>
        (\<forall>i. \<not> year_at U (snd f) i) \<longrightarrow>
        (\<exists>d. parse_article U e = Inr d \<and> d (py ''year'') = Some []))"
proof (intro conjI allI impI)
  show g: "\<exists>d. parse_article U e = Inr d \<and> d (py ''year'') = Some (spec_year U (entry_fields e))"
    using parse_article_result [of U e] by blast
  fix fs f
  assume a: "filter (\<lambda>f. fst f = py ''Date'') (entry_fields e) = fs @ [f] \<and>
        (\<forall>i. \<not> year_at U (snd f) i)"
  then have "extract_year_from_date U (snd f) = []" by (simp add: extract_year_none)
  with a have "spec_year U (entry_fields e) = []"
    by (cases fs) (simp_all add: spec_year_def)
  with g show "\<exists>d. parse_article U e = Inr d \<and> d (py ''year'') = Some []" by simp
qed

theorem year_last_date_wins_witness:
  "\<exists>d. parse_article \<lparr>uni_decimal = (\<lambda>c. False), uni_alnum = (\<lambda>c. False)\<rparr>
      \<lparr>entry_h2 = Some [py ''Study A''], entry_table = Some \<lparr>author_tds = [], table_rows =
        [\<lparr>row_th = Some [py ''Date''], row_td = Some [py ''2019-05'']\<rparr>,
         \<lparr>row_th = Some [py ''Date''], row_td = Some [py ''circa 1850s'']\<rparr>]\<rparr>\<rparr> = Inr d \<and>
      d (py ''year'') = Some []"
proof -
  let ?U = "\<lparr>uni_decimal = (\<lambda>c. False), uni_alnum = (\<lambda>c. False)\<rparr>"
  let ?e = "\<lparr>entry_h2 = Some [py ''Study A''], entry_table = Some \<lparr>author_tds = [], table_rows =
        [\<lparr>row_th = Some [py ''Date''], row_td = Some [py ''2019-05'']\<rparr>,
         \<lparr>row_th = Some [py ''Date''], row_td = Some [py ''circa 1850s'']\<rparr>]\<rparr>\<rparr>"
  have "extract_year_from_date ?U (py ''circa 1850s'') = []" by (simp add: year_eval)
  then have no: "\<forall>i. \<not> year_at ?U (snd (py ''Date'', py ''circa 1850s'')) i"
    using year_at_extract_nonempty [of ?U "py ''circa 1850s''"] by auto
  have fs: "filter (\<lambda>f. fst f = py ''Date'') (entry_fields ?e) =
      [(py ''Date'', py ''2019-05'')] @ [(py ''Date'', py ''circa 1850s'')]"
    by (simp add: entry_eval)
  from year_last_date_wins [of ?U ?e] fs no show ?thesis by blast
qed

section \<open>Shape of the field values\<close>

lemma double_space_append:
  "double_space (xs @ ys) \<longleftrightarrow>
     double_space xs \<or> double_space ys \<or> (xs \<noteq> [] \<and> ys \<noteq> [] \<and> isspace (last xs) \<and> isspace (hd ys))"
proof (induction xs rule: double_space.induct)
  case 1
  show ?case by simp
next
  case (2 a)
  show ?case by (cases ys) auto
next
  case (3 a b cs)
  then show ?case by auto
qed

lemma no_space_tidy:
  assumes "\<forall>c\<in>set s. \<not> isspace c"
  shows "tidy s"
proof -
  have "isspace 13" "isspace 10" by (simp_all add: isspace_def)
  with assms have "13 \<notin> set s" "10 \<notin> set s" by auto
  moreover from assms have "\<not> double_space s"
    by (induction s rule: double_space.induct) auto
  moreover from assms have "s \<noteq> [] \<longrightarrow> \<not> isspace (hd s) \<and> \<not> isspace (last s)"
    by auto
  ultimately show ?thesis by (simp add: tidy_def)
qed

lemma tidy_join:
  "\<forall>t\<in>set ts. token t \<Longrightarrow> tidy (str_join [32] ts)"
proof (induction "[32::nat]" ts rule: str_join.induct)
  case 1
  show ?case by (simp add: tidy_def)
next
  case (2 x)
  then show ?case by (simp add: no_space_tidy token_def)
next
  case (3 x y ys)
  let ?r = "str_join [32] (y # ys)"
  from 3 have x: "token x" and y: "token y" and r: "tidy ?r" by simp_all
  from y have rne: "?r \<noteq> []" by (cases ys) (auto simp: token_def)
  from x have tx: "tidy x" by (simp add: no_space_tidy token_def)
  from x have xne: "x \<noteq> []" and lx: "\<not> isspace (last x)" and hx: "\<not> isspace (hd x)"
    by (auto simp: token_def)
  from r rne have hr: "\<not> isspace (hd ?r)" and lr: "\<not> isspace (last ?r)"
    and dr: "\<not> double_space ?r" and cr: "13 \<notin> set ?r" "10 \<notin> set ?r"
    by (simp_all add: tidy_def)
  have d1: "\<not> double_space (32 # ?r)" using rne hr dr by (cases ?r) auto
  have "\<not> double_space (x @ 32 # ?r)"
    using tx d1 lx by (simp add: double_space_append tidy_def)
  moreover have "13 \<notin> set (x @ 32 # ?r)" "10 \<notin> set (x @ 32 # ?r)"
    using tx cr by (simp_all add: tidy_def)
  moreover have "\<not> isspace (hd (x @ 32 # ?r))" using xne hx by simp
  moreover have "\<not> isspace (last (x @ 32 # ?r))" using rne lr by simp
  ultimately show ?case by (simp add: tidy_def)
qed

lemma tidy_clean_text: "tidy (clean_text x)"
  unfolding clean_text_join by (rule tidy_join) (simp add: str_split_tokens)

lemma token_surname: "\<not> blank n \<Longrightarrow> token (surname n)"
proof -
  assume nb: "\<not> blank n"
  from last_str_split [OF nb] have "last_token n \<in> set (str_split n)"
    using last_in_set by metis
  then have "token (last_token n)" by (rule str_split_tokens)
  with nb show ?thesis by (simp add: surname_def)
qed

lemma tidy_format_authors: "tidy (format_authors names)"
proof -
  let ?ns = "map surname (filter (\<lambda>n. \<not> blank n) names)"
  have tok: "\<forall>t\<in>set ?ns. token t" by (auto simp: token_surname)
  have tand: "token (py ''and'')" and tet: "token (py ''et'')" and tal: "token (py ''al'')"
    by (simp_all add: token_def isspace_def)
  show ?thesis
  proof (cases ?ns)
    case Nil
    then show ?thesis by (simp add: format_authors_spec spec_format_def tidy_def)
  next
    case c1: (Cons a as)
    with tok have a: "token a" by simp
    show ?thesis
    proof (cases as)
      case Nil
      from tidy_join [of "[a]"] a have "tidy a" by simp
      with c1 Nil show ?thesis by (simp add: format_authors_spec spec_format_def)
    next
      case c2: (Cons b bs)
      with c1 tok have b: "token b" by simp
      show ?thesis
      proof (cases bs)
        case Nil
        from tidy_join [of "[a, py ''and'', b]"] a b tand
        have "tidy (a @ py '' and '' @ b)" by simp
        with c1 c2 Nil show ?thesis by (simp add: format_authors_spec spec_format_def)
      next
        case (Cons c cs)
        from tidy_join [of "[a, py ''et'', py ''al'']"] a tet tal
        have "tidy (a @ py '' et al'')" by simp
        with c1 c2 Cons show ?thesis by (simp add: format_authors_spec spec_format_def)
      qed
    qed
  qed
qed


lemma extract_year_chars:
  assumes "c \<in> set (extract_year_from_date U s)"
  shows "c \<in> set s \<and> (c = 49 \<or> c = 57 \<or> c = 50 \<or> c = 48 \<or> re_digit U c)"
proof (cases "find (year_at U s) [0 ..< Suc (length s)]")
  case None
  with assms show ?thesis by (simp add: extract_year_find)
next
  case (Some i)
  then have y: "year_at U s i" by (auto simp: find_Some_iff)
  then have len: "i + 4 \<le> length s" by (simp add: year_at_def)
  from assms Some have "c \<in> set (take 4 (drop i s))" by (simp add: extract_year_find)
  then obtain k where k: "k < length (take 4 (drop i s))" "c = take 4 (drop i s) ! k"
    by (auto simp: in_set_conv_nth)
  with len have k4: "k < 4" and c: "c = s ! (i + k)" by simp_all
  from k4 len have "c \<in> set s" unfolding c by simp
  moreover from k4 have "k = 0 \<or> k = 1 \<or> k = 2 \<or> k = 3" by auto
  with y c have "c = 49 \<or> c = 57 \<or> c = 50 \<or> c = 48 \<or> re_digit U c"
    by (auto simp: year_at_def)
  ultimately show ?thesis by simp
qed

lemma tidy_year_of_clean: "tidy (extract_year_from_date U (clean_text x))"
proof (rule no_space_tidy, rule ballI)
  fix c
  assume "c \<in> set (extract_year_from_date U (clean_text x))"
  from extract_year_chars [OF this]
  have m: "c \<in> set (clean_text x)"
    and d: "c = 49 \<or> c = 57 \<or> c = 50 \<or> c = 48 \<or> re_digit U c" by simp_all
  show "\<not> isspace c"
  proof
    assume sp: "isspace c"
    with m have "c = 32" by (rule clean_text_chars)
    with d show False by (simp add: re_digit_def)
  qed
qed

lemma field_table_clean:
  "f \<in> set (field_table rows) \<Longrightarrow> \<exists>x. snd f = clean_text x"
  by (induction rows) (auto simp: field_table_Cons row_field_def split: option.splits)

lemma tidy_spec_year:
  assumes "\<forall>f\<in>set fs. \<exists>x. snd f = clean_text x"
  shows "tidy (spec_year U fs)"
proof (cases "filter (\<lambda>f. fst f = py ''Date'') fs")
  case Nil
  then show ?thesis by (simp add: spec_year_def tidy_def)
next
  case (Cons g gs)
  have "last (g # gs) \<in> set (g # gs)" by (rule last_in_set) simp
  then have "last (g # gs) \<in> set fs" unfolding Cons [symmetric] by simp
  with assms obtain x where "snd (last (g # gs)) = clean_text x" by blast
  with Cons show ?thesis by (simp add: spec_year_def tidy_year_of_clean)
qed

lemma tidy_spec_journal:
  assumes "\<forall>f\<in>set fs. \<exists>x. snd f = clean_text x"
  shows "tidy (spec_journal fs)"
proof (cases "find venue_field fs")
  case None
  then show ?thesis by (simp add: spec_journal_def tidy_def)
next
  case (Some f)
  then have "f \<in> set fs" by (auto simp: find_Some_iff)
  with assms obtain x where "snd f = clean_text x" by blast
  with Some show ?thesis by (simp add: spec_journal_def tidy_clean_text)
qed

lemma tidy_spec_abstract:
  assumes "\<forall>f\<in>set fs. \<exists>x. snd f = clean_text x"
  shows "tidy (spec_abstract fs)"
proof (cases "filter (\<lambda>f. fst f = py ''Abstract'') fs")
  case Nil
  then show ?thesis by (simp add: spec_abstract_def tidy_def)
next
  case (Cons g gs)
  have "last (g # gs) \<in> set (g # gs)" by (rule last_in_set) simp
  then have "last (g # gs) \<in> set fs" unfolding Cons [symmetric] by simp
  with assms obtain x where "snd (last (g # gs)) = clean_text x" by blast
  with Cons show ?thesis by (simp add: spec_abstract_def tidy_clean_text)
qed

lemma entry_fields_clean: "\<forall>f\<in>set (entry_fields e). \<exists>x. snd f = clean_text x"
proof (cases "entry_table e")
  case None
  then show ?thesis by (simp add: entry_fields_def)
next
  case (Some tbl)
  then show ?thesis using field_table_clean [of _ "table_rows tbl"]
    by (simp add: entry_fields_def)
qed

lemma tidy_extracted_title: "tidy (extracted_title e)"
proof (cases "entry_h2 e")
  case None
  then show ?thesis by (simp add: extracted_title_def tidy_def)
next
  case (Some h)
  then show ?thesis by (simp add: extracted_title_def tidy_clean_text)
qed

text \<open>
  Claim C10. \<^verbatim>\<open>parse_article\<close> returns a record whose keys are exactly title,
  author(s), year, journal and abstract, and every value is a string with no CR or LF, no
  two consecutive whitespace characters and no leading or trailing whitespace
  (\<open>tidy\<close>).
\<close>

theorem parse_article_fields_tidy:
  "\<exists>d. parse_article U e = Inr d \<and>
       dom d = {py ''title'', py ''author(s)'', py ''year'', py ''journal'', py ''abstract''} \<and>
       (\<forall>k v. d k = Some v \<longrightarrow> tidy v)"
proof -
  from parse_article_result [of U e] obtain d names where
    p: "parse_article U e = Inr d"
    and t: "d (py ''title'') = Some (extracted_title e)"
    and a: "d (py ''author(s)'') = Some (format_authors names)"
    and y: "d (py ''year'') = Some (spec_year U (entry_fields e))"
    and j: "d (py ''journal'') = Some (spec_journal (entry_fields e))"
    and b: "d (py ''abstract'') = Some (spec_abstract (entry_fields e))"
    and dom: "dom d = {py ''title'', py ''author(s)'', py ''year'', py ''journal'', py ''abstract''}"
    by blast
  have "tidy v" if kv: "d k = Some v" for k v
  proof -
    from kv have "k \<in> dom d" by blast
    then have "k = py ''title'' \<or> k = py ''author(s)'' \<or> k = py ''year'' \<or> k = py ''journal'' \<or>
      k = py ''abstract''" unfolding dom by blast
    then show ?thesis
      using kv t a y j b tidy_extracted_title [of e] tidy_format_authors [of names]
        tidy_spec_year [OF entry_fields_clean, of U e] tidy_spec_journal [OF entry_fields_clean, of e]
        tidy_spec_abstract [OF entry_fields_clean, of e]
      by (elim disjE) simp_all
  qed
  with p dom show ?thesis by blast
qed

section \<open>The loop over the entries\<close>

lemma try_article_parsed:
  "parsed_articles (case try_article extract i a st of
          Inr st' \<Rightarrow> st'
        | Inl e \<Rightarrow> st\<lparr>printed := printed st @ [Error_parsing (i + 1) e]\<rparr>)
   = parsed_articles st @ kept extract a"
  by (simp add: try_article_def kept_def has_title_def getitem_def split: sum.splits option.splits)

lemma parse_loop_parsed:
  "parsed_articles (parse_loop extract i items st) =
     parsed_articles st @ concat (map (kept extract) items)"
proof (induction items arbitrary: i st)
  case Nil
  show ?case by simp
next
  case (Cons a items)
  show ?case by (simp only: parse_loop.simps Cons.IH try_article_parsed) simp
qed

lemma parse_report_parsed:
  "parsed_articles (parse_report_with extract items) = concat (map (kept extract) items)"
  by (simp add: parse_report_with_def parse_loop_parsed)

lemma parse_loop_printed_mono:
  "set (printed st) \<subseteq> set (printed (parse_loop extract i items st))"
proof (induction items arbitrary: i st)
  case Nil
  show ?case by simp
next
  case (Cons a items)
  have "set (printed st) \<subseteq> set (printed (case try_article extract i a st of
          Inr st' \<Rightarrow> st'
        | Inl e \<Rightarrow> st\<lparr>printed := printed st @ [Error_parsing (i + 1) e]\<rparr>))"
    by (auto simp: try_article_def getitem_def split: sum.splits option.splits if_splits)
  with Cons.IH show ?case by (simp only: parse_loop.simps) blast
qed

lemma parse_loop_error_printed:
  "extract bad = Inl e \<Longrightarrow>
   Error_parsing (i + length pre + 1) e \<in> set (printed (parse_loop extract i (pre @ bad # post) st))"
proof (induction pre arbitrary: i st)
  case Nil
  let ?st = "st\<lparr>printed := printed st @ [Error_parsing (i + 1) e]\<rparr>"
  from Nil have "parse_loop extract i ([] @ bad # post) st = parse_loop extract (Suc i) post ?st"
    by (simp add: try_article_def)
  moreover have "Error_parsing (i + 1) e \<in> set (printed ?st)" by simp
  moreover have "set (printed ?st) \<subseteq> set (printed (parse_loop extract (Suc i) post ?st))"
    by (rule parse_loop_printed_mono)
  ultimately show ?case by auto
next
  case (Cons a pre)
  from Cons.IH [OF Cons.prems, of "Suc i"] show ?case by simp
qed

lemma kept_length: "length (kept extract a) \<le> 1"
  by (simp add: kept_def split: sum.splits)

lemma length_concat_kept: "length (concat (map (kept extract) items)) \<le> length items"
proof (induction items)
  case Nil
  show ?case by simp
next
  case (Cons a items)
  with kept_length [of "extract" a] show ?case by simp
qed

lemma length_concat_kept_all:
  "\<forall>a\<in>set items. \<exists>d. extract a = Inr d \<and> has_title d \<Longrightarrow>
   length (concat (map (kept extract) items)) = length items"
  by (induction items) (auto simp: kept_def)

lemma kept_members: "d \<in> set (kept extract a) \<Longrightarrow> has_title d"
  by (auto simp: kept_def split: sum.splits if_splits)

section \<open>The report\<close>

lemma parse_article_kept:
  "kept (parse_article U) a =
     (if extracted_title a \<noteq> [] then [projr (parse_article U a)] else [])"
proof -
  from parse_article_result [of U a] obtain d where
    "parse_article U a = Inr d" "d (py ''title'') = Some (extracted_title a)" by blast
  then show ?thesis by (simp add: kept_def has_title_def)
qed

text \<open>
  Claim C1. Every record in the output of \<^verbatim>\<open>parse_zotero_html_report\<close> has a
  non-empty title, and the output has exactly one record for each entry whose extracted
  title is non-empty: an entry with an empty title produces no record.
\<close>

theorem output_titles_nonempty:
  "(\<forall>d\<in>set (parsed_articles (parse_zotero_html_report U article_items)).
      \<exists>t. d (py ''title'') = Some t \<and> t \<noteq> []) \<and>
   length (parsed_articles (parse_zotero_html_report U article_items)) =
     length (filter (\<lambda>a. extracted_title a \<noteq> []) article_items)"
proof
  show "\<forall>d\<in>set (parsed_articles (parse_zotero_html_report U article_items)).
      \<exists>t. d (py ''title'') = Some t \<and> t \<noteq> []"
  proof
    fix d
    assume "d \<in> set (parsed_articles (parse_zotero_html_report U article_items))"
    then obtain a where "d \<in> set (kept (parse_article U) a)"
      by (auto simp: parse_zotero_html_report_def parse_report_parsed)
    then have "has_title d" by (rule kept_members)
    then show "\<exists>t. d (py ''title'') = Some t \<and> t \<noteq> []"
      by (simp add: has_title_def split: option.splits)
  qed
  show "length (parsed_articles (parse_zotero_html_report U article_items)) =
     length (filter (\<lambda>a. extracted_title a \<noteq> []) article_items)"
    unfolding parse_zotero_html_report_def parse_report_parsed
    by (induction article_items) (simp_all add: parse_article_kept)
qed

text \<open>
  Claim C8. The output of \<^verbatim>\<open>parse_zotero_html_report\<close> is the sequence of the
  extracted records of the entries, in document order, filtered by the title being
  non-empty: the survivors keep their order.
\<close>

theorem output_order_preserved:
  "\<exists>ds. map (parse_article U) article_items = map Inr ds \<and>
        parsed_articles (parse_zotero_html_report U article_items) = filter has_title ds"
proof (induction article_items)
  case Nil
  show ?case by (simp add: parse_zotero_html_report_def parse_report_parsed)
next
  case (Cons a items)
  then obtain ds where ds: "map (parse_article U) items = map Inr ds"
    "parsed_articles (parse_zotero_html_report U items) = filter has_title ds" by blast
  from parse_article_result [of U a] obtain d where d: "parse_article U a = Inr d" by blast
  have "map (parse_article U) (a # items) = map Inr (d # ds)" using d ds(1) by simp
  moreover have "parsed_articles (parse_zotero_html_report U (a # items)) = filter has_title (d # ds)"
    using d ds(2) by (simp add: parse_zotero_html_report_def parse_report_parsed kept_def)
  ultimately show ?case by blast
qed

text \<open>
  Claim C7. When the extraction of one entry raises, the run skips that entry only: the
  output is what it would be without that entry, a diagnostic with the entry's number is
  printed, the run still returns its list, which has at most \<open>N - 1\<close> records for \<open>N\<close>
  entries, and exactly \<open>N - 1\<close> when every other entry yields a record with a title.
\<close>

theorem fault_skips_one_entry:
  assumes "extract bad = Inl e"
  shows "parsed_articles (parse_report_with extract (pre @ bad # post)) =
           parsed_articles (parse_report_with extract (pre @ post)) \<and>
         Error_parsing (length pre + 1) e \<in> set (printed (parse_report_with extract (pre @ bad # post))) \<and>
         length (parsed_articles (parse_report_with extract (pre @ bad # post))) \<le>
           length (pre @ bad # post) - 1 \<and>
         ((\<forall>a\<in>set (pre @ post). \<exists>d. extract a = Inr d \<and> has_title d) \<longrightarrow>
            length (parsed_articles (parse_report_with extract (pre @ bad # post))) =
              length (pre @ bad # post) - 1)"
proof (intro conjI impI)
  from assms have kb: "kept extract bad = []" by (simp add: kept_def)
  then show same: "parsed_articles (parse_report_with extract (pre @ bad # post)) =
           parsed_articles (parse_report_with extract (pre @ post))"
    by (simp add: parse_report_parsed)
  show "Error_parsing (length pre + 1) e \<in> set (printed (parse_report_with extract (pre @ bad # post)))"
    using assms parse_loop_error_printed [of "extract" bad e 0 pre post]
    by (simp add: parse_report_with_def)
  show "length (parsed_articles (parse_report_with extract (pre @ bad # post))) \<le>
           length (pre @ bad # post) - 1"
    unfolding parse_report_parsed using length_concat_kept [of "extract" "pre @ post"]
    by (simp add: kb)
  assume "\<forall>a\<in>set (pre @ post). \<exists>d. extract a = Inr d \<and> has_title d"
  then have "length (concat (map (kept extract) (pre @ post))) = length (pre @ post)"
    by (rule length_concat_kept_all)
  then show "length (parsed_articles (parse_report_with extract (pre @ bad # post))) =
              length (pre @ bad # post) - 1"
    unfolding parse_report_parsed by (simp add: kb)
qed


theorem output_titles_nonempty_witness:
  "length (parsed_articles (parse_zotero_html_report \<lparr>uni_decimal = (\<lambda>c. False), uni_alnum = (\<lambda>c. False)\<rparr>
     [\<lparr>entry_h2 = Some [py ''Study A''], entry_table = Some \<lparr>
          author_tds = [Some [py ''Alice Smith''], Some [py ''Bob Jones'']],
          table_rows =
            [\<lparr>row_th = Some [py ''Author''], row_td = Some [py ''Alice Smith'']\<rparr>,
             \<lparr>row_th = Some [py ''Author''], row_td = Some [py ''Bob Jones'']\<rparr>,
             \<lparr>row_th = Some [py ''Date''], row_td = Some [py ''2019-05'']\<rparr>,
             \<lparr>row_th = Some [py ''Publication''], row_td = Some [py ''Journal Q'']\<rparr>,
             \<lparr>row_th = Some [py ''Abstract''], row_td = Some [py ''Summary text'']\<rparr>]\<rparr>\<rparr>,
      \<lparr>entry_h2 = None, entry_table = None\<rparr>,
      \<lparr>entry_h2 = Some [py ''  '', [0x0A]], entry_table = None\<rparr>])) = 1"
  by (simp add: output_titles_nonempty extracted_title_def entry_eval)

theorem output_order_preserved_witness:
  "\<exists>ds. map (parse_article \<lparr>uni_decimal = (\<lambda>c. False), uni_alnum = (\<lambda>c. False)\<rparr>)
          [\<lparr>entry_h2 = Some [py ''Study B''], entry_table = None\<rparr>,
           \<lparr>entry_h2 = None, entry_table = None\<rparr>,
           \<lparr>entry_h2 = Some [py ''Study A''], entry_table = None\<rparr>] = map Inr ds \<and>
        parsed_articles (parse_zotero_html_report \<lparr>uni_decimal = (\<lambda>c. False), uni_alnum = (\<lambda>c. False)\<rparr>
          [\<lparr>entry_h2 = Some [py ''Study B''], entry_table = None\<rparr>,
           \<lparr>entry_h2 = None, entry_table = None\<rparr>,
           \<lparr>entry_h2 = Some [py ''Study A''], entry_table = None\<rparr>]) = filter has_title ds"
  by (rule output_order_preserved)

theorem fault_skips_one_entry_witness:
  "length (parsed_articles (parse_report_with
      (\<lambda>a. if entry_table a = None then Inl (Exception (py ''malformed table''))
           else parse_article \<lparr>uni_decimal = (\<lambda>c. False), uni_alnum = (\<lambda>c. False)\<rparr> a)
      ([\<lparr>entry_h2 = Some [py ''Study A''], entry_table = Some \<lparr>author_tds = [], table_rows = []\<rparr>\<rparr>] @
        \<lparr>entry_h2 = Some [py ''Study B''], entry_table = None\<rparr> #
       [\<lparr>entry_h2 = Some [py ''Study C''], entry_table = Some \<lparr>author_tds = [], table_rows = []\<rparr>\<rparr>]))) = 2 \<and>
   Error_parsing 2 (Exception (py ''malformed table'')) \<in> set (printed (parse_report_with
      (\<lambda>a. if entry_table a = None then Inl (Exception (py ''malformed table''))
           else parse_article \<lparr>uni_decimal = (\<lambda>c. False), uni_alnum = (\<lambda>c. False)\<rparr> a)
      ([\<lparr>entry_h2 = Some [py ''Study A''], entry_table = Some \<lparr>author_tds = [], table_rows = []\<rparr>\<rparr>] @
        \<lparr>entry_h2 = Some [py ''Study B''], entry_table = None\<rparr> #
       [\<lparr>entry_h2 = Some [py ''Study C''], entry_table = Some \<lparr>author_tds = [], table_rows = []\<rparr>\<rparr>])))"
proof -
  let ?U = "\<lparr>uni_decimal = (\<lambda>c. False), uni_alnum = (\<lambda>c. False)\<rparr>"
  let ?x = "\<lambda>a. if entry_table a = None then Inl (Exception (py ''malformed table''))
           else parse_article ?U a"
  let ?a = "\<lparr>entry_h2 = Some [py ''Study A''], entry_table = Some \<lparr>author_tds = [], table_rows = []\<rparr>\<rparr>"
  let ?b = "\<lparr>entry_h2 = Some [py ''Study B''], entry_table = None\<rparr>"
  let ?c = "\<lparr>entry_h2 = Some [py ''Study C''], entry_table = Some \<lparr>author_tds = [], table_rows = []\<rparr>\<rparr>"
  have bad: "?x ?b = Inl (Exception (py ''malformed table''))" by simp
  have ok: "\<exists>d. ?x a = Inr d \<and> has_title d" if "a = ?a \<or> a = ?c" for a
  proof -
    from parse_article_result [of ?U a] obtain d where
      d: "parse_article ?U a = Inr d" "d (py ''title'') = Some (extracted_title a)" by blast
    from that have "extracted_title a \<noteq> []" by (auto simp: extracted_title_def entry_eval)
    with d have "has_title d" by (simp add: has_title_def)
    moreover from that d(1) have "?x a = Inr d" by auto
    ultimately show ?thesis by blast
  qed
  then have all: "\<forall>a\<in>set ([?a] @ [?c]). \<exists>d. ?x a = Inr d \<and> has_title d" by simp
  note t = fault_skips_one_entry [of ?x ?b "Exception (py ''malformed table'')" "[?a]" "[?c]", OF bad]
  from t all have l: "length (parsed_articles (parse_report_with ?x ([?a] @ ?b # [?c]))) =
      length ([?a] @ ?b # [?c]) - 1" by blast
  from t have p: "Error_parsing (length [?a] + 1) (Exception (py ''malformed table'')) \<in>
      set (printed (parse_report_with ?x ([?a] @ ?b # [?c])))" by blast
  have n1: "length ([?a] @ ?b # [?c]) - 1 = 2" by simp
  have n2: "length [?a] + 1 = 2" by simp
  from l p show ?thesis unfolding n1 n2 by (rule conjI)
qed

theorem parse_article_fields_tidy_witness:
  "\<exists>d v. parse_article \<lparr>uni_decimal = (\<lambda>c. False), uni_alnum = (\<lambda>c. False)\<rparr>
      \<lparr>entry_h2 = Some [[0x0A] @ py ''Study'', py ''A  ''], entry_table = Some \<lparr>
          author_tds = [Some [py ''Alice  Smith''], None, Some [py ''Bob Jones'' @ [0x0D]]],
          table_rows =
            [\<lparr>row_th = Some [py ''Date''], row_td = Some [py ''2019-05'']\<rparr>,
             \<lparr>row_th = Some [py ''Abstract''], row_td = Some [py ''Summary'' @ [0x0A, 0x09] @ py ''text'']\<rparr>]\<rparr>\<rparr>
      = Inr d \<and> d (py ''abstract'') = Some v \<and> tidy v"
proof -
  let ?U = "\<lparr>uni_decimal = (\<lambda>c. False), uni_alnum = (\<lambda>c. False)\<rparr>"
  let ?e = "\<lparr>entry_h2 = Some [[0x0A] @ py ''Study'', py ''A  ''], entry_table = Some \<lparr>
          author_tds = [Some [py ''Alice  Smith''], None, Some [py ''Bob Jones'' @ [0x0D]]],
          table_rows =
            [\<lparr>row_th = Some [py ''Date''], row_td = Some [py ''2019-05'']\<rparr>,
             \<lparr>row_th = Some [py ''Abstract''], row_td = Some [py ''Summary'' @ [0x0A, 0x09] @ py ''text'']\<rparr>]\<rparr>\<rparr>"
  from parse_article_fields_tidy [of ?U ?e] obtain d where
    d: "parse_article ?U ?e = Inr d"
    "dom d = {py ''title'', py ''author(s)'', py ''year'', py ''journal'', py ''abstract''}"
    "\<forall>k v. d k = Some v \<longrightarrow> tidy v" by blast
  from d(2) have "py ''abstract'' \<in> dom d" by blast
  then obtain v where v: "d (py ''abstract'') = Some v" by blast
  with d(3) have "tidy v" by blast
  with d(1) v show ?thesis by blast
qed

end
